theory Spec2Isabelle
  imports Main
begin

section \<open>Strings and character classes\<close>

text \<open>
  A Python \<^verbatim>\<open>str\<close> is modelled as a \<^typ>\<open>string\<close> whose characters are the code
  points 0 to 255.  The classes below are the ones Python's \<^verbatim>\<open>re\<close> uses for a
  \<^verbatim>\<open>str\<close> pattern (Unicode classification), restricted to that range.
\<close>

definition nl :: char where
  "nl = CHR 0x0A"

definition chr_in :: "nat \<Rightarrow> nat \<Rightarrow> char \<Rightarrow> bool" where
  "chr_in lo hi c = (lo \<le> of_char c \<and> of_char c \<le> (hi::nat))"

text \<open>\<^verbatim>\<open>\s\<close> and \<^verbatim>\<open>str.isspace\<close>: tab to carriage return, the four separators
  0x1C to 0x1F, space, NEL and the no-break space.\<close>

definition is_space :: "char \<Rightarrow> bool" where
  "is_space c = (chr_in 0x09 0x0D c \<or> chr_in 0x1C 0x20 c \<or> of_char c = (0x85::nat)
     \<or> of_char c = (0xA0::nat))"

text \<open>\<^verbatim>\<open>\d\<close>: the decimal digits.\<close>

definition is_digit :: "char \<Rightarrow> bool" where
  "is_digit c = chr_in 0x30 0x39 c"

text \<open>\<^verbatim>\<open>[a-zA-Z0-9_]\<close>.\<close>

definition is_ascii_word :: "char \<Rightarrow> bool" where
  "is_ascii_word c = (chr_in 0x61 0x7A c \<or> chr_in 0x41 0x5A c \<or> chr_in 0x30 0x39 c
     \<or> c = CHR ''_'')"

text \<open>\<^verbatim>\<open>\w\<close>: \<^verbatim>\<open>str.isalnum\<close> or the underscore.\<close>

definition is_word :: "char \<Rightarrow> bool" where
  "is_word c = (is_ascii_word c \<or> of_char c \<in> {0xAA, 0xB2, 0xB3, 0xB5, 0xB9, 0xBA::nat}
     \<or> chr_in 0xBC 0xBE c \<or> chr_in 0xC0 0xD6 c \<or> chr_in 0xD8 0xF6 c \<or> chr_in 0xF8 0xFF c)"

text \<open>\<^verbatim>\<open>.\<close> under \<^verbatim>\<open>re.DOTALL\<close>, and without it.\<close>

definition any_char :: "char \<Rightarrow> bool" where
  "any_char c = True"

definition not_newline :: "char \<Rightarrow> bool" where
  "not_newline c = (c \<noteq> nl)"

definition tab :: char where
  "tab = CHR 0x09"

definition cr :: char where
  "cr = CHR 0x0D"

text \<open>\<^verbatim>\<open>str.count("\n")\<close>, \<^verbatim>\<open>str.lstrip()\<close>, \<^verbatim>\<open>str.rstrip()\<close> and
  \<^verbatim>\<open>str.startswith\<close>.\<close>

definition count_newlines :: "string \<Rightarrow> nat" where
  "count_newlines s = length (filter (\<lambda>c. c = nl) s)"

definition str_lstrip :: "string \<Rightarrow> string" where
  "str_lstrip s = dropWhile is_space s"

definition str_rstrip :: "string \<Rightarrow> string" where
  "str_rstrip s = rev (dropWhile is_space (rev s))"

definition startswith :: "string \<Rightarrow> string \<Rightarrow> bool" where
  "startswith s p = (take (length p) s = p)"

section \<open>The regular expressions of the \<^verbatim>\<open>re\<close> module\<close>

text \<open>
  The patterns of the lexers use: single characters and classes, literal strings
  (\<^verbatim>\<open>re.escape\<close>), greedy and lazy repetition of a single class, sequence, ordered
  alternation, named and unnamed capturing groups, a named backreference, positive and
  negative lookahead, \<^verbatim>\<open>$\<close> and \<^verbatim>\<open>\b\<close>.
\<close>

datatype regex =
    Chr "char \<Rightarrow> bool"
  | Lit string
  | Rep bool nat "nat option" "char \<Rightarrow> bool"
  | Seq "regex list"
  | Alt "regex list"
  | Grp "string option" regex
  | Backref string
  | Ahead regex
  | NotAhead regex
  | Eos
  | WordB

text \<open>
  The state of one match attempt: the offset, the text from the offset on, the character
  before the offset, the text of the named groups closed so far (latest first) and the
  name of the group closed last (\<^verbatim>\<open>None\<close> for an unnamed group).
\<close>

record mstate =
  pos :: nat
  rest :: string
  prev :: "char option"
  caps :: "(string \<times> string) list"
  lastg :: "string option"

definition next_char :: "(char \<Rightarrow> bool) \<Rightarrow> mstate \<Rightarrow> mstate option" where
  "next_char cs st =
     (case rest st of
        [] \<Rightarrow> None
      | c # xs \<Rightarrow> if cs c then Some (st\<lparr>pos := Suc (pos st), rest := xs, prev := Some c\<rparr>)
                 else None)"

fun lit :: "string \<Rightarrow> (mstate \<Rightarrow> mstate option) \<Rightarrow> mstate \<Rightarrow> mstate option" where
  "lit [] k st = k st"
| "lit (c # cs) k st =
     (case next_char (\<lambda>x. x = c) st of None \<Rightarrow> None | Some st1 \<Rightarrow> lit cs k st1)"

definition dec :: "nat option \<Rightarrow> nat option" where
  "dec hi = map_option (\<lambda>h. h - 1) hi"

text \<open>
  Repetition of one class between \<open>lo\<close> and \<open>hi\<close> times.  A greedy repetition tries one
  more character before it tries the rest of the pattern, a lazy one tries the rest of
  the pattern first; both give back what the rest of the pattern refuses.
\<close>

function rep :: "bool \<Rightarrow> (char \<Rightarrow> bool) \<Rightarrow> nat \<Rightarrow> nat option \<Rightarrow>
    (mstate \<Rightarrow> mstate option) \<Rightarrow> mstate \<Rightarrow> mstate option" where
  "rep g cs lo hi k st =
     (case (if hi = Some 0 then None else next_char cs st) of
        None \<Rightarrow> if lo = 0 then k st else None
      | Some st1 \<Rightarrow>
          if 0 < lo then rep g cs (lo - 1) (dec hi) k st1
          else if g then
            (case rep g cs 0 (dec hi) k st1 of Some e \<Rightarrow> Some e | None \<Rightarrow> k st)
          else
            (case k st of Some e \<Rightarrow> Some e | None \<Rightarrow> rep g cs 0 (dec hi) k st1))"
  by pat_completeness auto
termination
  by (relation "measure (\<lambda>(g, cs, lo, hi, k, st). length (rest st))")
     (auto simp: next_char_def split: if_splits list.splits)

declare rep.simps [simp del]

definition close_group :: "string option \<Rightarrow> mstate \<Rightarrow> mstate \<Rightarrow> mstate" where
  "close_group n st e =
     (case n of
        None \<Rightarrow> e\<lparr>lastg := None\<rparr>
      | Some name \<Rightarrow>
          e\<lparr>caps := (name, take (pos e - pos st) (rest st)) # caps e, lastg := Some name\<rparr>)"

definition is_word_opt :: "char option \<Rightarrow> bool" where
  "is_word_opt c = (case c of None \<Rightarrow> False | Some x \<Rightarrow> is_word x)"

definition at_boundary :: "mstate \<Rightarrow> bool" where
  "at_boundary st =
     (is_word_opt (prev st) \<noteq> is_word_opt (case rest st of [] \<Rightarrow> None | c # xs \<Rightarrow> Some c))"

text \<open>
  The backtracking matcher: \<open>m r k st\<close> matches \<open>r\<close> at \<open>st\<close> and hands every way of
  doing so, in the order \<^verbatim>\<open>re\<close> tries them, to the rest of the pattern \<open>k\<close>; the first
  one the rest accepts is the result.
\<close>

fun m :: "regex \<Rightarrow> (mstate \<Rightarrow> mstate option) \<Rightarrow> mstate \<Rightarrow> mstate option" where
  "m (Chr cs) k st = (case next_char cs st of None \<Rightarrow> None | Some st1 \<Rightarrow> k st1)"
| "m (Lit s) k st = lit s k st"
| "m (Rep g lo hi cs) k st = rep g cs lo hi k st"
| "m (Seq []) k st = k st"
| "m (Seq (r # rs)) k st = m r (\<lambda>st1. m (Seq rs) k st1) st"
| "m (Alt []) k st = None"
| "m (Alt (r # rs)) k st = (case m r k st of Some e \<Rightarrow> Some e | None \<Rightarrow> m (Alt rs) k st)"
| "m (Grp n r) k st = m r (\<lambda>e. k (close_group n st e)) st"
| "m (Backref n) k st = (case map_of (caps st) n of None \<Rightarrow> None | Some s \<Rightarrow> lit s k st)"
| "m (Ahead r) k st =
     (case m r Some st of None \<Rightarrow> None | Some e \<Rightarrow> k (st\<lparr>caps := caps e, lastg := lastg e\<rparr>))"
| "m (NotAhead r) k st = (case m r Some st of None \<Rightarrow> k st | Some e \<Rightarrow> None)"
| "m Eos k st = (if rest st = [] \<or> rest st = [nl] then k st else None)"
| "m WordB k st = (if at_boundary st then k st else None)"


section \<open>Scanning: \<^verbatim>\<open>Pattern.finditer\<close>\<close>

text \<open>
  A match object: the span, the matched text (\<^verbatim>\<open>match.group()\<close>), the named groups
  and \<^verbatim>\<open>match.lastgroup\<close>.
\<close>

record rmatch =
  m_start :: nat
  m_end :: nat
  m_text :: string
  m_groups :: "(string \<times> string) list"
  m_lastgroup :: "string option"

text \<open>\<^verbatim>\<open>match.group(name)\<close> is \<^verbatim>\<open>None\<close> for a group that took no part in the match.\<close>

definition group :: "rmatch \<Rightarrow> string \<Rightarrow> string option" where
  "group mt name = map_of (m_groups mt) name"

text \<open>
  The lexers read a group either in a truth test, where \<^verbatim>\<open>None\<close> and the empty string
  are both false, or inside the branch of the rule the group belongs to, where the group
  took part in the match.  \<open>group_text\<close> is the text of the group, empty for \<^verbatim>\<open>None\<close>.
\<close>

definition group_text :: "rmatch \<Rightarrow> string \<Rightarrow> string" where
  "group_text mt name = (case group mt name of None \<Rightarrow> [] | Some s \<Rightarrow> s)"

definition fresh :: "mstate \<Rightarrow> mstate" where
  "fresh st = st\<lparr>caps := [], lastg := None\<rparr>"

text \<open>
  The end of the whole pattern: a scan that has just returned an empty match must not
  return an empty match at the same offset again, so the matcher backtracks there.
\<close>

definition accept :: "bool \<Rightarrow> nat \<Rightarrow> mstate \<Rightarrow> mstate option" where
  "accept must_advance start e = (if must_advance \<and> pos e = start then None else Some e)"

text \<open>\<^verbatim>\<open>search\<close>: the first offset from \<open>st\<close> on at which the pattern matches.\<close>

function search :: "regex \<Rightarrow> bool \<Rightarrow> mstate \<Rightarrow> (mstate \<times> mstate) option" where
  "search rx must_advance st =
     (case m rx (accept must_advance (pos st)) (fresh st) of
        Some e \<Rightarrow> Some (st, e)
      | None \<Rightarrow>
          (case next_char any_char st of
             None \<Rightarrow> None
           | Some st1 \<Rightarrow> search rx False st1))"
  by pat_completeness auto
termination
  by (relation "measure (\<lambda>(rx, b, st). length (rest st))")
     (auto simp: next_char_def split: if_splits list.splits)

declare search.simps [simp del]

definition mk_match :: "mstate \<Rightarrow> mstate \<Rightarrow> rmatch" where
  "mk_match s e =
     \<lparr>m_start = pos s, m_end = pos e, m_text = take (pos e - pos s) (rest s),
      m_groups = caps e, m_lastgroup = lastg e\<rparr>"


text \<open>A syntactic check: \<open>nullable r\<close> holds when \<open>r\<close> may match without consuming a
  character (assertions and backreferences are counted as such).\<close>


fun nullable :: "regex \<Rightarrow> bool" where
  "nullable (Chr cs) = False"
| "nullable (Lit s) = (s = [])"
| "nullable (Rep g lo hi cs) = (lo = 0)"
| "nullable (Seq rs) = (\<forall>r \<in> set rs. nullable r)"
| "nullable (Alt rs) = (\<exists>r \<in> set rs. nullable r)"
| "nullable (Grp n r) = nullable r"
| "nullable (Backref n) = True"
| "nullable (Ahead r) = True"
| "nullable (NotAhead r) = True"
| "nullable Eos = True"
| "nullable WordB = True"

subsection \<open>Every match moves forward through the text\<close>

text \<open>These facts are what the termination of \<open>finditer_from\<close> below rests on.\<close>

text \<open>\<open>ext st e\<close>: the state \<open>e\<close> lies at or after \<open>st\<close> in the same text.\<close>

definition ext :: "mstate \<Rightarrow> mstate \<Rightarrow> bool" where
  "ext st e = (pos st \<le> pos e \<and> pos e - pos st \<le> length (rest st) \<and>
     rest e = drop (pos e - pos st) (rest st))"

lemma ext_refl: "ext st st"
  by (simp add: ext_def)

lemma ext_trans:
  assumes "ext a b" and "ext b c"
  shows "ext a c"
proof -
  from assms have ab: "pos a \<le> pos b" and bc: "pos b \<le> pos c"
    and lb: "pos b - pos a \<le> length (rest a)" and lc: "pos c - pos b \<le> length (rest b)"
    and rb: "rest b = drop (pos b - pos a) (rest a)" and rc: "rest c = drop (pos c - pos b) (rest b)"
    by (auto simp: ext_def)
  have split: "pos c - pos a = (pos c - pos b) + (pos b - pos a)"
    using ab bc by simp
  have "length (rest b) = length (rest a) - (pos b - pos a)"
    by (simp add: rb)
  with lb lc split have "pos c - pos a \<le> length (rest a)"
    by arith
  moreover have "rest c = drop (pos c - pos a) (rest a)"
    by (simp add: rc rb split)
  ultimately show ?thesis
    using ab bc by (simp add: ext_def)
qed

lemma next_char_ext:
  "next_char cs st = Some st1 \<Longrightarrow> ext st st1 \<and> pos st1 = Suc (pos st)"
  by (auto simp: next_char_def ext_def split: list.splits if_splits)

lemma lit_ext:
  "lit s k st = Some res \<Longrightarrow> \<exists>e. ext st e \<and> pos e = pos st + length s \<and> k e = Some res"
proof (induction s arbitrary: st)
  case Nil
  then show ?case by (auto intro: ext_refl)
next
  case (Cons c s)
  then obtain st1 where a: "next_char (\<lambda>x. x = c) st = Some st1" and b: "lit s k st1 = Some res"
    by (auto split: option.splits)
  from Cons.IH [OF b] obtain e where "ext st1 e" "pos e = pos st1 + length s" "k e = Some res"
    by blast
  with next_char_ext [OF a] show ?case
    by (auto intro: ext_trans)
qed

lemma next_char_Some:
  assumes "next_char cs st = Some st1"
  shows "\<exists>c. rest st = c # rest st1 \<and> cs c \<and> prev st1 = Some c" and "pos st1 = Suc (pos st)"
    and "caps st1 = caps st" and "lastg st1 = lastg st"
  using assms by (auto simp: next_char_def split: list.splits if_splits)

text \<open>What a repetition hands to the rest of the pattern: a state some characters of the
  class further on, their number within the bounds, the groups untouched.\<close>

lemma rep_span:
  "rep g cs lo hi k st = Some res \<Longrightarrow>
     \<exists>e. ext st e \<and> pos st + lo \<le> pos e \<and> (\<forall>h. hi = Some h \<longrightarrow> pos e \<le> pos st + h) \<and>
       (\<forall>c \<in> set (take (pos e - pos st) (rest st)). cs c) \<and>
       caps e = caps st \<and> lastg e = lastg st \<and> k e = Some res"
proof (induction g cs lo hi k st rule: rep.induct)
  case (1 g cs lo hi k st)
  let ?goal = "\<exists>e. ext st e \<and> pos st + lo \<le> pos e \<and> (\<forall>h. hi = Some h \<longrightarrow> pos e \<le> pos st + h) \<and>
       (\<forall>c \<in> set (take (pos e - pos st) (rest st)). cs c) \<and>
       caps e = caps st \<and> lastg e = lastg st \<and> k e = Some res"
  note unf = rep.simps [of g cs lo hi k st]
  from "1.prems" have P:
    "(case (if hi = Some 0 then None else next_char cs st) of
        None \<Rightarrow> if lo = 0 then k st else None
      | Some st1 \<Rightarrow>
          if 0 < lo then rep g cs (lo - 1) (dec hi) k st1
          else if g then
            (case rep g cs 0 (dec hi) k st1 of Some e \<Rightarrow> Some e | None \<Rightarrow> k st)
          else
            (case k st of Some e \<Rightarrow> Some e | None \<Rightarrow> rep g cs 0 (dec hi) k st1)) = Some res"
    by (simp only: unf)
  have here: ?goal if "lo = 0" and "k st = Some res"
    using that by (intro exI [of _ st]) (simp add: ext_refl)
  show ?case
  proof (cases "if hi = Some 0 then None else next_char cs st")
    case None
    with P have "lo = 0" and "k st = Some res"
      by (auto split: if_splits)
    then show ?thesis
      by (rule here)
  next
    case (Some st1)
    then have nc: "next_char cs st = Some st1" and hi0: "hi \<noteq> Some 0"
      by (auto split: if_splits)
    note e1 = next_char_ext [OF nc]
    from next_char_Some [OF nc] obtain c where
      c: "rest st = c # rest st1" "cs c" and p1: "pos st1 = Suc (pos st)"
      and g1: "caps st1 = caps st" "lastg st1 = lastg st"
      by blast
    have via: ?goal
      if a: "ext st1 e" "pos st1 + (lo - 1) \<le> pos e"
        "\<forall>h. dec hi = Some h \<longrightarrow> pos e \<le> pos st1 + h"
        "\<forall>c \<in> set (take (pos e - pos st1) (rest st1)). cs c"
        "caps e = caps st1" "lastg e = lastg st1" "k e = Some res" for e
    proof -
      from a(1) e1 have x: "ext st e"
        by (auto intro: ext_trans)
      from a(1) p1 have le: "Suc (pos st) \<le> pos e"
        by (simp add: ext_def)
      then have d: "pos e - pos st = Suc (pos e - pos st1)"
        using p1 by simp
      have lo': "pos st + lo \<le> pos e"
        using a(2) p1 by simp
      have hi': "\<forall>h. hi = Some h \<longrightarrow> pos e \<le> pos st + h"
      proof (intro allI impI)
        fix h assume h: "hi = Some h"
        with hi0 have "0 < h" by simp
        moreover from h a(3) have "pos e \<le> pos st1 + (h - 1)"
          by (simp add: dec_def)
        ultimately show "pos e \<le> pos st + h"
          using p1 by simp
      qed
      have all: "\<forall>x \<in> set (take (pos e - pos st) (rest st)). cs x"
        using a(4) c by (simp add: d)
      from x lo' hi' all a(5,6,7) g1 show ?thesis
        by (intro exI [of _ e]) simp
    qed
    show ?thesis
    proof (cases "0 < lo")
      case True
      with P Some have "rep g cs (lo - 1) (dec hi) k st1 = Some res"
        by simp
      from "1.IH"(1) [OF Some True this] via show ?thesis
        by blast
    next
      case False
      then have l0: "lo = 0" by simp
      show ?thesis
      proof (cases g)
        case True
        with P Some l0
        consider "rep g cs 0 (dec hi) k st1 = Some res" | "k st = Some res"
          by (auto split: option.splits)
        then show ?thesis
        proof cases
          case 1
          from "1.IH"(2) [OF Some False True 1] obtain e where
            "ext st1 e" "pos st1 + 0 \<le> pos e"
            "\<forall>h. dec hi = Some h \<longrightarrow> pos e \<le> pos st1 + h"
            "\<forall>c \<in> set (take (pos e - pos st1) (rest st1)). cs c"
            "caps e = caps st1" "lastg e = lastg st1" "k e = Some res"
            by blast
          with l0 show ?thesis
            by (intro via [of e]) simp_all
        next
          case 2
          with here l0 show ?thesis by blast
        qed
      next
        case g: False
        with P Some l0
        consider "k st = None" "rep g cs 0 (dec hi) k st1 = Some res" | "k st = Some res"
          by (auto split: option.splits)
        then show ?thesis
        proof cases
          case 1
          from "1.IH"(3) [OF Some False g 1] obtain e where
            "ext st1 e" "pos st1 + 0 \<le> pos e"
            "\<forall>h. dec hi = Some h \<longrightarrow> pos e \<le> pos st1 + h"
            "\<forall>c \<in> set (take (pos e - pos st1) (rest st1)). cs c"
            "caps e = caps st1" "lastg e = lastg st1" "k e = Some res"
            by blast
          with l0 show ?thesis
            by (intro via [of e]) simp_all
        next
          case 2
          with here l0 show ?thesis by blast
        qed
      qed
    qed
  qed
qed

lemma rep_ext:
  "rep g cs lo hi k st = Some res \<Longrightarrow> \<exists>e. ext st e \<and> pos st + lo \<le> pos e \<and> k e = Some res"
  by (drule rep_span) blast

lemma m_ext:
  "m r k st = Some res \<Longrightarrow>
     \<exists>e. ext st e \<and> (\<not> nullable r \<longrightarrow> pos st < pos e) \<and> k e = Some res"
proof (induction r k st arbitrary: res rule: m.induct)
  case (1 cs k st)
  then show ?case
    by (auto split: option.splits dest!: next_char_ext)
next
  case (2 s k st)
  then show ?case
    by (auto dest!: lit_ext)
next
  case (3 g lo hi cs k st)
  then show ?case
    by (auto dest!: rep_ext)
next
  case (4 k st)
  then show ?case
    by (auto intro: ext_refl)
next
  case (5 r rs k st)
  from "5.prems" have "m r (\<lambda>st1. m (Seq rs) k st1) st = Some res"
    by simp
  from "5.IH"(2) [OF this] obtain e1 where
    a: "ext st e1" "\<not> nullable r \<longrightarrow> pos st < pos e1" "m (Seq rs) k e1 = Some res"
    by blast
  from "5.IH"(1) [OF a(3)] obtain e where
    b: "ext e1 e" "\<not> nullable (Seq rs) \<longrightarrow> pos e1 < pos e" "k e = Some res"
    by blast
  from a b have "ext st e" "pos st \<le> pos e1" "pos e1 \<le> pos e"
    by (auto intro: ext_trans simp: ext_def)
  with a b show ?case
    by (intro exI [of _ e]) auto
next
  case (6 k st)
  then show ?case by simp
next
  case (7 r rs k st)
  then show ?case
    by (auto split: option.splits)
next
  case (8 n r k st)
  from "8.prems" have "m r (\<lambda>e. k (close_group n st e)) st = Some res"
    by simp
  from "8.IH" [OF this] obtain e where
    a: "ext st e" "\<not> nullable r \<longrightarrow> pos st < pos e" "k (close_group n st e) = Some res"
    by blast
  then show ?case
    by (intro exI [of _ "close_group n st e"])
       (auto simp: close_group_def ext_def split: option.splits)
next
  case (9 n k st)
  then show ?case
    by (auto split: option.splits dest!: lit_ext)
next
  case (10 r k st)
  then show ?case
    by (auto split: option.splits simp: ext_def intro!: exI [of _ "st\<lparr>caps := c, lastg := l\<rparr>" for c l])
next
  case (11 r k st)
  then show ?case
    by (auto split: option.splits intro: ext_refl)
next
  case (12 k st)
  then show ?case
    by (auto split: if_splits intro: ext_refl)
next
  case (13 k st)
  then show ?case
    by (auto split: if_splits intro: ext_refl)
qed

lemma search_ext:
  "search rx must_advance st = Some (s, e) \<Longrightarrow>
     ext st s \<and> ext s e \<and> (must_advance \<longrightarrow> pos st < pos e)"
proof (induction rx must_advance st rule: search.induct)
  case (1 rx must_advance st)
  note unf = search.simps [of rx must_advance st]
  show ?case
  proof (cases "m rx (accept must_advance (pos st)) (fresh st)")
    case (Some e')
    with "1.prems" have eq: "s = st" "e = e'"
      by (simp_all add: unf)
    from m_ext [OF Some] obtain x where
      x: "ext (fresh st) x" "accept must_advance (pos st) x = Some e'"
      by blast
    then have "x = e'" and adv: "must_advance \<longrightarrow> pos x \<noteq> pos st"
      by (auto simp: accept_def split: if_splits)
    with x have "ext st e'" and "must_advance \<longrightarrow> pos st < pos e'"
      by (auto simp: ext_def fresh_def)
    with eq show ?thesis
      by (simp add: ext_refl)
  next
    case None
    with "1.prems" obtain st1 where
      nc: "next_char any_char st = Some st1" and sr: "search rx False st1 = Some (s, e)"
      by (auto simp: unf split: option.splits)
    from "1.IH" [OF None nc sr] have ih: "ext st1 s" "ext s e"
      by simp_all
    from next_char_ext [OF nc] have a: "ext st st1" "pos st1 = Suc (pos st)"
      by simp_all
    from a(1) ih(1) have "ext st s"
      by (rule ext_trans)
    moreover from a(2) ih have "pos st < pos e"
      by (simp add: ext_def)
    ultimately show ?thesis
      using ih by simp
  qed
qed

text \<open>
  \<^verbatim>\<open>finditer\<close>: the matches from left to right.  Each search starts where the match before
  it ended.
\<close>

function finditer_from :: "regex \<Rightarrow> bool \<Rightarrow> mstate \<Rightarrow> rmatch list" where
  "finditer_from rx must_advance st =
     (case search rx must_advance st of
        None \<Rightarrow> []
      | Some (s, e) \<Rightarrow> mk_match s e # finditer_from rx (pos e = pos s) (fresh e))"
  by pat_completeness auto
termination
proof (relation "measure (\<lambda>(rx, b, st). 2 * length (rest st) + (if b then 0 else 1))", goal_cases)
  case 1
  show ?case by simp
next
  case (2 rx must_advance st x s e)
  then have "search rx must_advance st = Some (s, e)"
    by simp
  from search_ext [OF this] have a: "ext st s" "ext s e" "must_advance \<longrightarrow> pos st < pos e"
    by simp_all
  from a(1,2) have "ext st e"
    by (rule ext_trans)
  then have len: "length (rest e) = length (rest st) - (pos e - pos st)"
    and le: "pos e - pos st \<le> length (rest st)" and mono: "pos st \<le> pos e"
    by (simp_all add: ext_def)
  from a have order: "pos st \<le> pos s" "pos s \<le> pos e"
    by (simp_all add: ext_def)
  show ?case
  proof (cases "pos st < pos e")
    case True
    with len le show ?thesis
      by (auto simp: fresh_def)
  next
    case False
    with order a(3) have "pos e = pos s" and "\<not> must_advance" and "pos e = pos st"
      by auto
    with len show ?thesis
      by (simp add: fresh_def)
  qed
qed

declare finditer_from.simps [simp del]

definition start_state :: "string \<Rightarrow> mstate" where
  "start_state source = \<lparr>pos = 0, rest = source, prev = None, caps = [], lastg = None\<rparr>"

definition finditer :: "regex \<Rightarrow> string \<Rightarrow> rmatch list" where
  "finditer rx source = finditer_from rx False (start_state source)"


section \<open>Tokens and errors\<close>

text \<open>\<^verbatim>\<open>Token(linenum, type, value)\<close>; the loop lexer yields the same triple as a plain
  tuple.\<close>

record token =
  t_linenum :: nat
  t_type :: string
  t_value :: string

definition Token :: "nat \<Rightarrow> string \<Rightarrow> string \<Rightarrow> token" where
  "Token n k v = \<lparr>t_linenum = n, t_type = k, t_value = v\<rparr>"

text \<open>
  The messages of the lexers: \<^verbatim>\<open>f"unexpected {value!r}"\<close>,
  \<^verbatim>\<open>f"unknown operator {value!r}"\<close> and \<^verbatim>\<open>"expected '}}', found 'eof'"\<close>, each kept with
  the text it was built from.
\<close>

datatype message =
    Unexpected string
  | Unknown_operator string
  | Expected_close_found_eof

text \<open>\<^verbatim>\<open>LiquidSyntaxError(message, linenum=...)\<close>, and the \<^verbatim>\<open>AssertionError\<close> of
  \<^verbatim>\<open>assert kind is not None\<close>.\<close>

datatype error =
    LiquidSyntaxError message nat
  | AssertionError

text \<open>
  A generator runs its loop body once for each match.  One run of the body yields some
  tokens and then either goes on with a new loop state or raises; the tokens yielded
  before an error stay yielded.
\<close>

fun run_loop :: "('a \<Rightarrow> 's \<Rightarrow> token list \<times> (error + 's)) \<Rightarrow> 's \<Rightarrow> 'a list \<Rightarrow>
    token list \<times> error option" where
  "run_loop body st [] = ([], None)"
| "run_loop body st (x # xs) =
     (case body x st of
        (toks, Inl e) \<Rightarrow> (toks, Some e)
      | (toks, Inr st') \<Rightarrow>
          (case run_loop body st' xs of (toks', r) \<Rightarrow> (toks @ toks', r)))"

text \<open>The loop state a generator has reached after the matches \<open>xs\<close>, when none of them
  made it raise.\<close>

fun loop_state :: "('a \<Rightarrow> 's \<Rightarrow> token list \<times> (error + 's)) \<Rightarrow> 's \<Rightarrow> 'a list \<Rightarrow> 's option" where
  "loop_state body st [] = Some st"
| "loop_state body st (x # xs) =
     (case snd (body x st) of Inl e \<Rightarrow> None | Inr st' \<Rightarrow> loop_state body st' xs)"

text \<open>
  Modelled from the spec: the module \<^verbatim>\<open>liquid.token\<close> is not among the sources.  Each
  kind is the lower-case name the specification gives it; a keyword kind is the keyword
  itself, which the lexers rely on when they write \<^verbatim>\<open>kind = value\<close>.
\<close>

definition TOKEN_ILLEGAL :: string where "TOKEN_ILLEGAL = ''illegal''"
definition TOKEN_LITERAL :: string where "TOKEN_LITERAL = ''literal''"
definition TOKEN_STATEMENT :: string where "TOKEN_STATEMENT = ''statement''"
definition TOKEN_TAG :: string where "TOKEN_TAG = ''tag''"
definition TOKEN_EXPRESSION :: string where "TOKEN_EXPRESSION = ''expression''"
definition TOKEN_INTEGER :: string where "TOKEN_INTEGER = ''integer''"
definition TOKEN_FLOAT :: string where "TOKEN_FLOAT = ''float''"
definition TOKEN_STRING :: string where "TOKEN_STRING = ''string''"
definition TOKEN_IDENTIFIER :: string where "TOKEN_IDENTIFIER = ''identifier''"
definition TOKEN_IDENTINDEX :: string where "TOKEN_IDENTINDEX = ''ident_index''"
definition TOKEN_IDENTSTRING :: string where "TOKEN_IDENTSTRING = ''ident_string''"
definition TOKEN_NEGATIVE :: string where "TOKEN_NEGATIVE = ''negative''"
definition TOKEN_DOT :: string where "TOKEN_DOT = ''dot''"
definition TOKEN_COMMA :: string where "TOKEN_COMMA = ''comma''"
definition TOKEN_COLON :: string where "TOKEN_COLON = ''colon''"
definition TOKEN_PIPE :: string where "TOKEN_PIPE = ''pipe''"
definition TOKEN_ASSIGN :: string where "TOKEN_ASSIGN = ''assign''"
definition TOKEN_RANGE :: string where "TOKEN_RANGE = ''range''"
definition TOKEN_LBRACKET :: string where "TOKEN_LBRACKET = ''lbracket''"
definition TOKEN_RBRACKET :: string where "TOKEN_RBRACKET = ''rbracket''"
definition TOKEN_LPAREN :: string where "TOKEN_LPAREN = ''lparen''"
definition TOKEN_RPAREN :: string where "TOKEN_RPAREN = ''rparen''"
definition TOKEN_SKIP :: string where "TOKEN_SKIP = ''skip''"
definition TOKEN_NEWLINE :: string where "TOKEN_NEWLINE = ''newline''"
definition TOKEN_TRUE :: string where "TOKEN_TRUE = ''true''"
definition TOKEN_FALSE :: string where "TOKEN_FALSE = ''false''"
definition TOKEN_NIL :: string where "TOKEN_NIL = ''nil''"
definition TOKEN_EMPTY :: string where "TOKEN_EMPTY = ''empty''"
definition TOKEN_AND :: string where "TOKEN_AND = ''and''"
definition TOKEN_OR :: string where "TOKEN_OR = ''or''"
definition TOKEN_CONTAINS :: string where "TOKEN_CONTAINS = ''contains''"
definition TOKEN_WITH :: string where "TOKEN_WITH = ''with''"
definition TOKEN_FOR :: string where "TOKEN_FOR = ''for''"
definition TOKEN_AS :: string where "TOKEN_AS = ''as''"
definition TOKEN_BY :: string where "TOKEN_BY = ''by''"
definition TOKEN_IN :: string where "TOKEN_IN = ''in''"
definition TOKEN_OFFSET :: string where "TOKEN_OFFSET = ''offset''"
definition TOKEN_LIMIT :: string where "TOKEN_LIMIT = ''limit''"
definition TOKEN_REVERSED :: string where "TOKEN_REVERSED = ''reversed''"
definition TOKEN_COLS :: string where "TOKEN_COLS = ''cols''"
definition TOKEN_CONTINUE :: string where "TOKEN_CONTINUE = ''continue''"

lemmas token_defs =
  TOKEN_ILLEGAL_def TOKEN_LITERAL_def TOKEN_STATEMENT_def TOKEN_TAG_def TOKEN_EXPRESSION_def
  TOKEN_INTEGER_def TOKEN_FLOAT_def TOKEN_STRING_def TOKEN_IDENTIFIER_def
  TOKEN_IDENTINDEX_def TOKEN_IDENTSTRING_def TOKEN_NEGATIVE_def TOKEN_DOT_def
  TOKEN_COMMA_def TOKEN_COLON_def TOKEN_PIPE_def TOKEN_ASSIGN_def TOKEN_RANGE_def
  TOKEN_LBRACKET_def TOKEN_RBRACKET_def TOKEN_LPAREN_def TOKEN_RPAREN_def TOKEN_SKIP_def
  TOKEN_NEWLINE_def TOKEN_TRUE_def TOKEN_FALSE_def TOKEN_NIL_def TOKEN_EMPTY_def
  TOKEN_AND_def TOKEN_OR_def TOKEN_CONTAINS_def TOKEN_WITH_def TOKEN_FOR_def TOKEN_AS_def
  TOKEN_BY_def TOKEN_IN_def TOKEN_OFFSET_def TOKEN_LIMIT_def TOKEN_REVERSED_def
  TOKEN_COLS_def TOKEN_CONTINUE_def

section \<open>\<^verbatim>\<open>liquid/lex.py\<close>: the rule tables\<close>

text \<open>Shorthand for the quantifiers over one class, and for the class of one character.\<close>

definition is_chr :: "char \<Rightarrow> char \<Rightarrow> bool" where
  "is_chr c x = (x = c)"

definition star :: "(char \<Rightarrow> bool) \<Rightarrow> regex" where
  "star cs = Rep True 0 None cs"

definition plus :: "(char \<Rightarrow> bool) \<Rightarrow> regex" where
  "plus cs = Rep True 1 None cs"

definition opt :: "(char \<Rightarrow> bool) \<Rightarrow> regex" where
  "opt cs = Rep True 0 (Some 1) cs"

definition lazy_star :: "(char \<Rightarrow> bool) \<Rightarrow> regex" where
  "lazy_star cs = Rep False 0 None cs"

definition lazy_plus :: "(char \<Rightarrow> bool) \<Rightarrow> regex" where
  "lazy_plus cs = Rep False 1 None cs"

definition named :: "string \<Rightarrow> regex \<Rightarrow> regex" where
  "named name r = Grp (Some name) r"

text \<open>\<^verbatim>\<open>[a-zA-Z0-9_\-]\<close>, \<^verbatim>\<open>[a-zA-Z0-9_\-?]\<close>, \<^verbatim>\<open>[ \t]\<close>, \<^verbatim>\<open>["']\<close> and \<^verbatim>\<open>[!=<>]\<close>.\<close>

definition ident_tail :: "char \<Rightarrow> bool" where
  "ident_tail c = (is_ascii_word c \<or> c = CHR ''-'')"

definition ident_tail_q :: "char \<Rightarrow> bool" where
  "ident_tail_q c = (is_ascii_word c \<or> c = CHR ''-'' \<or> c = CHR ''?'')"

definition blank :: "char \<Rightarrow> bool" where
  "blank c = (c = CHR '' '' \<or> c = tab)"

definition quote_char :: "char \<Rightarrow> bool" where
  "quote_char c = (c = CHR 0x22 \<or> c = CHR 0x27)"

definition op_char :: "char \<Rightarrow> bool" where
  "op_char c = (c \<in> set ''!=<>'')"

text \<open>The rule tables are compiled with \<^verbatim>\<open>re.DOTALL\<close>, so their \<^verbatim>\<open>.\<close> is \<open>any_char\<close>.\<close>

definition IDENTIFIER_PATTERN :: regex where
  "IDENTIFIER_PATTERN = Seq [Chr is_word, star ident_tail]"

definition STRING_PATTERN :: regex where
  "STRING_PATTERN =
     Seq [named ''quote'' (Chr quote_char), named ''quoted'' (lazy_star any_char),
          Backref ''quote'']"

definition identifier_rules :: "(string \<times> regex) list" where
  "identifier_rules =
     [(TOKEN_INTEGER, plus is_digit),
      (TOKEN_STRING, STRING_PATTERN),
      (TOKEN_IDENTIFIER, IDENTIFIER_PATTERN),
      (TOKEN_DOT, Chr (is_chr CHR ''.'')),
      (TOKEN_LBRACKET, Chr (is_chr CHR ''['')),
      (TOKEN_RBRACKET, Chr (is_chr CHR '']'')),
      (''NEWLINE'', Chr (is_chr nl)),
      (''SKIP'', plus blank),
      (TOKEN_ILLEGAL, Chr any_char)]"

definition filtered_expression_rules :: "(string \<times> regex) list" where
  "filtered_expression_rules =
     [(TOKEN_FLOAT, Seq [plus is_digit, Chr (is_chr CHR ''.''), star is_digit]),
      (TOKEN_INTEGER, plus is_digit),
      (TOKEN_NEGATIVE, Chr (is_chr CHR ''-'')),
      (TOKEN_STRING, STRING_PATTERN),
      (TOKEN_IDENTIFIER, IDENTIFIER_PATTERN),
      (TOKEN_DOT, Chr (is_chr CHR ''.'')),
      (TOKEN_COMMA, Chr (is_chr CHR '','')),
      (TOKEN_LBRACKET, Chr (is_chr CHR ''['')),
      (TOKEN_RBRACKET, Chr (is_chr CHR '']'')),
      (TOKEN_COLON, Chr (is_chr CHR '':'')),
      (TOKEN_PIPE, Chr (is_chr CHR ''|'')),
      (''NEWLINE'', Chr (is_chr nl)),
      (''SKIP'', plus blank),
      (TOKEN_ILLEGAL, Chr any_char)]"

definition filtered_expression_keywords :: "string set" where
  "filtered_expression_keywords = {TOKEN_TRUE, TOKEN_FALSE, TOKEN_NIL, TOKEN_EMPTY}"

definition assignment_expression_rules :: "(string \<times> regex) list" where
  "assignment_expression_rules =
     (TOKEN_ASSIGN, Chr (is_chr CHR ''='')) # filtered_expression_rules"

definition boolean_expression_rules :: "(string \<times> regex) list" where
  "boolean_expression_rules =
     [(TOKEN_FLOAT, Seq [plus is_digit, Chr (is_chr CHR ''.''), star is_digit]),
      (TOKEN_INTEGER, plus is_digit),
      (TOKEN_NEGATIVE, Chr (is_chr CHR ''-'')),
      (TOKEN_STRING, STRING_PATTERN),
      (TOKEN_IDENTIFIER, Seq [Chr is_word, star ident_tail_q]),
      (TOKEN_DOT, Chr (is_chr CHR ''.'')),
      (TOKEN_LBRACKET, Chr (is_chr CHR ''['')),
      (TOKEN_RBRACKET, Chr (is_chr CHR '']'')),
      (TOKEN_COLON, Chr (is_chr CHR '':'')),
      (''NEWLINE'', Chr (is_chr nl)),
      (''OP'', Rep True 1 (Some 2) op_char),
      (''SKIP'', plus blank),
      (TOKEN_ILLEGAL, Chr any_char)]"

definition boolean_expression_keywords :: "string set" where
  "boolean_expression_keywords =
     {TOKEN_TRUE, TOKEN_FALSE, TOKEN_NIL, TOKEN_EMPTY, TOKEN_AND, TOKEN_OR, TOKEN_CONTAINS}"

definition loop_expression_rules :: "(string \<times> regex) list" where
  "loop_expression_rules =
     [(TOKEN_INTEGER, plus is_digit),
      (TOKEN_IDENTIFIER, IDENTIFIER_PATTERN),
      (TOKEN_RANGE, Lit ''..''),
      (TOKEN_DOT, Chr (is_chr CHR ''.'')),
      (TOKEN_LBRACKET, Chr (is_chr CHR ''['')),
      (TOKEN_RBRACKET, Chr (is_chr CHR '']'')),
      (TOKEN_LPAREN, Chr (is_chr CHR ''('')),
      (TOKEN_RPAREN, Chr (is_chr CHR '')'')),
      (TOKEN_COLON, Chr (is_chr CHR '':'')),
      (''NEWLINE'', Chr (is_chr nl)),
      (''SKIP'', plus blank),
      (TOKEN_ILLEGAL, Chr any_char)]"

definition loop_expression_keywords :: "string set" where
  "loop_expression_keywords =
     {TOKEN_IN, TOKEN_OFFSET, TOKEN_LIMIT, TOKEN_REVERSED, TOKEN_COLS}"

definition include_expression_rules :: "(string \<times> regex) list" where
  "include_expression_rules =
     [(TOKEN_FLOAT, Seq [plus is_digit, Chr (is_chr CHR ''.''), star is_digit]),
      (TOKEN_INTEGER, plus is_digit),
      (TOKEN_NEGATIVE, Chr (is_chr CHR ''-'')),
      (TOKEN_STRING, STRING_PATTERN),
      (TOKEN_IDENTIFIER, Seq [Chr is_word, star ident_tail_q]),
      (TOKEN_DOT, Chr (is_chr CHR ''.'')),
      (TOKEN_COMMA, Chr (is_chr CHR '','')),
      (TOKEN_LBRACKET, Chr (is_chr CHR ''['')),
      (TOKEN_RBRACKET, Chr (is_chr CHR '']'')),
      (TOKEN_COLON, Chr (is_chr CHR '':'')),
      (''NEWLINE'', Chr (is_chr nl)),
      (''SKIP'', plus blank),
      (TOKEN_ILLEGAL, Chr any_char)]"

definition include_expression_keywords :: "string set" where
  "include_expression_keywords =
     {TOKEN_TRUE, TOKEN_FALSE, TOKEN_NIL, TOKEN_EMPTY, TOKEN_WITH, TOKEN_FOR, TOKEN_AS}"

text \<open>
  \<^verbatim>\<open>_compile_rules\<close>: one alternative \<^verbatim>\<open>(?P<name>pattern)\<close> for each rule, in the order
  of the table.
\<close>

definition p_compile_rules :: "(string \<times> regex) list \<Rightarrow> regex" where
  "p_compile_rules rules = Alt (map (\<lambda>(name, pattern). named name pattern) rules)"

text \<open>\<^verbatim>\<open>compile_liquid_rules\<close>; \<^verbatim>\<open>re.escape\<close> of a delimiter is the literal \<open>Lit\<close>.\<close>

definition liquid_rules :: "string \<Rightarrow> string \<Rightarrow> string \<Rightarrow> string \<Rightarrow> (string \<times> regex) list" where
  "liquid_rules tag_start_string tag_end_string statement_start_string statement_end_string =
     (let tag_s = Lit tag_start_string;
          tag_e = Lit tag_end_string;
          stmt_s = Lit statement_start_string;
          stmt_e = Lit statement_end_string
      in
      [(''RAW'',
          Seq [tag_s, star is_space, Lit ''raw'', star is_space, tag_e,
               named ''raw'' (lazy_star any_char),
               tag_s, star is_space, Lit ''endraw'', star is_space, tag_e]),
       (TOKEN_STATEMENT,
          Seq [stmt_s, opt (is_chr CHR ''-''), star is_space,
               named ''stmt'' (lazy_star any_char), star is_space,
               named ''rss'' (opt (is_chr CHR ''-'')), stmt_e]),
       (''TAG'',
          Seq [tag_s, opt (is_chr CHR ''-''), star is_space,
               named ''name'' (star is_word), star is_space,
               named ''expr'' (lazy_star any_char), star is_space,
               named ''rst'' (opt (is_chr CHR ''-'')), tag_e]),
       (TOKEN_LITERAL,
          Seq [lazy_plus any_char,
               Ahead (Alt [Grp None (Seq [Grp None (Alt [tag_s, stmt_s]),
                                          named ''rstrip'' (opt (is_chr CHR ''-''))]),
                           Eos])])])"

definition compile_liquid_rules :: "string \<Rightarrow> string \<Rightarrow> string \<Rightarrow> string \<Rightarrow> regex" where
  "compile_liquid_rules tag_start_string tag_end_string statement_start_string
       statement_end_string =
     p_compile_rules (liquid_rules tag_start_string tag_end_string statement_start_string
       statement_end_string)"

text \<open>\<^verbatim>\<open>LIQUID_EXPRESSION_RE\<close> is compiled without flags: its \<^verbatim>\<open>.\<close> stops at a newline.\<close>

definition LIQUID_EXPRESSION_RE :: regex where
  "LIQUID_EXPRESSION_RE =
     Seq [star blank, named ''name'' (plus is_word), star blank,
          named ''expr'' (star not_newline), lazy_star blank,
          Grp None (Alt [Chr (is_chr nl), Eos])]"

section \<open>\<^verbatim>\<open>liquid/lex.py\<close>: the tokenizers\<close>

text \<open>The body of the loop of \<^verbatim>\<open>tokenize_liquid_expression\<close>; the loop state is
  \<^verbatim>\<open>line_count\<close>.\<close>

definition liquid_expression_body :: "rmatch \<Rightarrow> nat \<Rightarrow> token list \<times> (error + nat)" where
  "liquid_expression_body mt line_count =
     (let line_num = line_count;
          value = m_text mt;
          line_count = line_count + count_newlines value
      in (Token line_num TOKEN_TAG (group_text mt ''name'') #
            (if group_text mt ''expr'' \<noteq> []
             then [Token line_num TOKEN_EXPRESSION (group_text mt ''expr'')] else []),
          Inr line_count))"

definition tokenize_liquid_expression :: "string \<Rightarrow> token list \<times> error option" where
  "tokenize_liquid_expression source =
     run_loop liquid_expression_body 1 (finditer LIQUID_EXPRESSION_RE source)"

text \<open>
  The body of the loop of \<^verbatim>\<open>_tokenize\<close>; the loop state is \<^verbatim>\<open>line_num\<close>.  The table
  \<^verbatim>\<open>operators\<close> comes from \<^verbatim>\<open>liquid.token\<close>, which is not among the sources, and is a
  parameter here.
\<close>

definition p_tokenize_body :: "(string \<rightharpoonup> string) \<Rightarrow> string set \<Rightarrow> rmatch \<Rightarrow> nat \<Rightarrow>
    token list \<times> (error + nat)" where
  "p_tokenize_body operators keywords mt line_num =
     (case m_lastgroup mt of
        None \<Rightarrow> ([], Inl AssertionError)
      | Some kind \<Rightarrow>
          (let value = m_text mt in
           if kind = TOKEN_IDENTIFIER \<and> value \<in> keywords then
             ([Token line_num value value], Inr line_num)
           else if kind = TOKEN_STRING then
             ([Token line_num kind (group_text mt ''quoted'')], Inr line_num)
           else if kind = ''OP'' then
             (case operators value of
                None \<Rightarrow> ([], Inl (LiquidSyntaxError (Unknown_operator value) line_num))
              | Some k \<Rightarrow> ([Token line_num k value], Inr line_num))
           else if kind = ''NEWLINE'' then ([], Inr (line_num + 1))
           else if kind = ''SKIP'' then ([], Inr line_num)
           else if kind = TOKEN_ILLEGAL then
             ([], Inl (LiquidSyntaxError (Unexpected value) line_num))
           else ([Token line_num kind value], Inr line_num)))"

definition p_tokenize :: "(string \<rightharpoonup> string) \<Rightarrow> string \<Rightarrow> regex \<Rightarrow> string set \<Rightarrow>
    token list \<times> error option" where
  "p_tokenize operators source rules keywords =
     run_loop (p_tokenize_body operators keywords) 1 (finditer rules source)"

definition tokenize_identifier :: "(string \<rightharpoonup> string) \<Rightarrow> string \<Rightarrow> token list \<times> error option" where
  "tokenize_identifier operators source =
     p_tokenize operators source (p_compile_rules identifier_rules) {}"

definition tokenize_loop_expression :: "(string \<rightharpoonup> string) \<Rightarrow> string \<Rightarrow> token list \<times> error option" where
  "tokenize_loop_expression operators source =
     p_tokenize operators source (p_compile_rules loop_expression_rules) loop_expression_keywords"

definition tokenize_filtered_expression :: "(string \<rightharpoonup> string) \<Rightarrow> string \<Rightarrow> token list \<times> error option" where
  "tokenize_filtered_expression operators source =
     p_tokenize operators source (p_compile_rules filtered_expression_rules)
       filtered_expression_keywords"

definition tokenize_assignment_expression :: "(string \<rightharpoonup> string) \<Rightarrow> string \<Rightarrow> token list \<times> error option" where
  "tokenize_assignment_expression operators source =
     p_tokenize operators source (p_compile_rules assignment_expression_rules)
       filtered_expression_keywords"

definition tokenize_boolean_expression :: "(string \<rightharpoonup> string) \<Rightarrow> string \<Rightarrow> token list \<times> error option" where
  "tokenize_boolean_expression operators source =
     p_tokenize operators source (p_compile_rules boolean_expression_rules)
       boolean_expression_keywords"

definition tokenize_include_expression :: "(string \<rightharpoonup> string) \<Rightarrow> string \<Rightarrow> token list \<times> error option" where
  "tokenize_include_expression operators source =
     p_tokenize operators source (p_compile_rules include_expression_rules)
       include_expression_keywords"

definition tokenize_paginate_expression :: "(string \<rightharpoonup> string) \<Rightarrow> string \<Rightarrow> token list \<times> error option" where
  "tokenize_paginate_expression operators source =
     p_tokenize operators source (p_compile_rules identifier_rules) {TOKEN_BY}"

text \<open>The loop state of \<^verbatim>\<open>_tokenize_template\<close>: \<^verbatim>\<open>line_count\<close> and \<^verbatim>\<open>lstrip\<close>.\<close>

record tstate =
  line_count :: nat
  lstrip :: bool

text \<open>The body of the loop of \<^verbatim>\<open>_tokenize_template\<close>.\<close>

definition p_tokenize_template_body :: "rmatch \<Rightarrow> tstate \<Rightarrow> token list \<times> (error + tstate)" where
  "p_tokenize_template_body mt st =
     (case m_lastgroup mt of
        None \<Rightarrow> ([], Inl AssertionError)
      | Some kind \<Rightarrow>
          (let line_num = line_count st;
               value = m_text mt;
               lc = line_count st + count_newlines value
           in
           if kind = TOKEN_STATEMENT then
             ([Token line_num kind (group_text mt ''stmt'')],
              Inr \<lparr>line_count = lc, lstrip = (group_text mt ''rss'' \<noteq> [])\<rparr>)
           else if kind = ''TAG'' then
             (Token line_num TOKEN_TAG (group_text mt ''name'') #
                (if group_text mt ''expr'' = [] then []
                 else [Token line_num TOKEN_EXPRESSION (group_text mt ''expr'')]),
              Inr \<lparr>line_count = lc, lstrip = (group_text mt ''rst'' \<noteq> [])\<rparr>)
           else if kind = ''RAW'' then
             ([Token line_num TOKEN_LITERAL (group_text mt ''raw'')],
              Inr \<lparr>line_count = lc, lstrip = lstrip st\<rparr>)
           else if kind = TOKEN_LITERAL then
             (let value = (if lstrip st then str_lstrip value else value);
                  value = (if group_text mt ''rstrip'' \<noteq> [] then str_rstrip value else value)
              in
              if value = [] then ([], Inr \<lparr>line_count = lc, lstrip = lstrip st\<rparr>)
              else if startswith value ''{{'' then
                ([], Inl (LiquidSyntaxError Expected_close_found_eof lc))
              else if startswith value ''{%'' then
                ([], Inl (LiquidSyntaxError Expected_close_found_eof lc))
              else ([Token line_num kind value], Inr \<lparr>line_count = lc, lstrip = lstrip st\<rparr>))
           else ([Token line_num kind value], Inr \<lparr>line_count = lc, lstrip = lstrip st\<rparr>)))"

text \<open>The text of a literal match after the two trimming steps of the literal branch.\<close>

definition trimmed :: "rmatch \<Rightarrow> tstate \<Rightarrow> string" where
  "trimmed mt st =
     (let value = (if lstrip st then str_lstrip (m_text mt) else m_text mt)
      in if group_text mt ''rstrip'' \<noteq> [] then str_rstrip value else value)"

definition p_tokenize_template :: "string \<Rightarrow> regex \<Rightarrow> token list \<times> error option" where
  "p_tokenize_template source rules =
     run_loop p_tokenize_template_body \<lparr>line_count = 1, lstrip = False\<rparr> (finditer rules source)"

definition get_lexer :: "string \<Rightarrow> string \<Rightarrow> string \<Rightarrow> string \<Rightarrow> string \<Rightarrow>
    token list \<times> error option" where
  "get_lexer tag_start_string tag_end_string statement_start_string statement_end_string source =
     p_tokenize_template source
       (compile_liquid_rules tag_start_string tag_end_string statement_start_string
          statement_end_string)"

text \<open>The lexer of the default delimiters, \<^verbatim>\<open>get_lexer()\<close>.\<close>

definition default_lexer :: "string \<Rightarrow> token list \<times> error option" where
  "default_lexer source = get_lexer ''{%'' ''%}'' ''{{'' ''}}'' source"


section \<open>\<^verbatim>\<open>liquid/expressions/loop/lex.py\<close>\<close>

text \<open>
  The loop lexer imports two group names and three patterns from
  \<^verbatim>\<open>liquid.expressions.common\<close>, which is not among the sources.  They are parameters
  of the model.
\<close>

record common =
  GROUP_IDENTINDEX :: string
  GROUP_IDENTQUOTED :: string
  COMMON_IDENTIFIER_PATTERN :: regex
  IDENTSTRING_PATTERN :: regex
  IDENTINDEX_PATTERN :: regex

text \<open>\<^verbatim>\<open>[ \t\r]\<close>.\<close>

definition blank_cr :: "char \<Rightarrow> bool" where
  "blank_cr c = (c = CHR '' '' \<or> c = tab \<or> c = cr)"

definition token_rules :: "common \<Rightarrow> (string \<times> regex) list" where
  "token_rules cm =
     [(TOKEN_IDENTINDEX, IDENTINDEX_PATTERN cm),
      (TOKEN_IDENTSTRING, IDENTSTRING_PATTERN cm),
      (TOKEN_RANGE, Lit ''..''),
      (TOKEN_FLOAT,
         Seq [opt (is_chr CHR ''-''), plus is_digit, Chr (is_chr CHR ''.''),
              NotAhead (Chr (is_chr CHR ''.'')), star is_digit]),
      (TOKEN_INTEGER, Seq [opt (is_chr CHR ''-''), plus is_digit, WordB]),
      (TOKEN_DOT, Chr (is_chr CHR ''.'')),
      (TOKEN_IDENTIFIER, COMMON_IDENTIFIER_PATTERN cm),
      (TOKEN_LPAREN, Chr (is_chr CHR ''('')),
      (TOKEN_RPAREN, Chr (is_chr CHR '')'')),
      (TOKEN_LBRACKET, Chr (is_chr CHR ''['')),
      (TOKEN_RBRACKET, Chr (is_chr CHR '']'')),
      (TOKEN_COLON, Chr (is_chr CHR '':'')),
      (TOKEN_PIPE, Chr (is_chr CHR ''|'')),
      (TOKEN_NEWLINE, Chr (is_chr nl)),
      (TOKEN_SKIP, plus blank_cr),
      (TOKEN_ILLEGAL, Chr any_char)]"

text \<open>The set \<^verbatim>\<open>keywords\<close> of the loop lexer.\<close>

definition loop_lex_keywords :: "string set" where
  "loop_lex_keywords =
     {TOKEN_IN, TOKEN_OFFSET, TOKEN_LIMIT, TOKEN_REVERSED, TOKEN_COLS, TOKEN_CONTINUE}"

definition OUTPUT_RE :: "common \<Rightarrow> regex" where
  "OUTPUT_RE cm = Alt (map (\<lambda>(name, pattern). named name pattern) (token_rules cm))"

text \<open>The body of the loop of \<^verbatim>\<open>tokenize\<close>; the loop state is \<^verbatim>\<open>line_num\<close>.\<close>

definition tokenize_body :: "common \<Rightarrow> rmatch \<Rightarrow> nat \<Rightarrow> token list \<times> (error + nat)" where
  "tokenize_body cm mt line_num =
     (case m_lastgroup mt of
        None \<Rightarrow> ([], Inl AssertionError)
      | Some kind \<Rightarrow>
          (let value = m_text mt;
               newlines = count_newlines value
           in
           if kind = TOKEN_IDENTIFIER \<and> value \<in> loop_lex_keywords then
             ([Token (line_num + newlines) value value], Inr (line_num + newlines))
           else if kind = TOKEN_IDENTINDEX then
             ([Token (line_num + newlines) kind (group_text mt (GROUP_IDENTINDEX cm))],
              Inr (line_num + newlines))
           else if kind = TOKEN_IDENTSTRING then
             ([Token (line_num + newlines) TOKEN_IDENTIFIER
                 (group_text mt (GROUP_IDENTQUOTED cm))],
              Inr (line_num + newlines))
           else if kind = TOKEN_NEWLINE then ([], Inr (line_num + 1))
           else if kind = TOKEN_SKIP then ([], Inr line_num)
           else if kind = TOKEN_ILLEGAL then
             ([], Inl (LiquidSyntaxError (Unexpected value) line_num))
           else ([Token (line_num + newlines) kind value], Inr (line_num + newlines))))"

definition tokenize :: "common \<Rightarrow> string \<Rightarrow> nat \<Rightarrow> token list \<times> error option" where
  "tokenize cm source line_num =
     run_loop (tokenize_body cm) line_num (finditer (OUTPUT_RE cm) source)"

text \<open>
  Modelled from the spec: the patterns and group names of
  \<^verbatim>\<open>liquid.expressions.common\<close>, which is not among the sources.  The specification
  describes an indexed identifier as \<^verbatim>\<open>name[...]\<close> with a bracketed integer or
  quoted-string index, reduced to its inner index text, and a quoted identifier as
  \<^verbatim>\<open>name["literal"]\<close>, reduced to the quoted inner text.  The name is written with the
  identifier pattern of \<^verbatim>\<open>liquid/lex.py\<close>, the integer as \<^verbatim>\<open>-?\d+\<close>.
\<close>

definition spec_quoted :: "string \<Rightarrow> string \<Rightarrow> regex" where
  "spec_quoted q inner =
     Seq [named q (Chr quote_char), named inner (lazy_star any_char), Backref q]"

definition spec_common :: common where
  "spec_common =
     \<lparr>GROUP_IDENTINDEX = ''identindex'',
      GROUP_IDENTQUOTED = ''identquoted'',
      COMMON_IDENTIFIER_PATTERN = IDENTIFIER_PATTERN,
      IDENTSTRING_PATTERN =
        Seq [IDENTIFIER_PATTERN, Chr (is_chr CHR ''[''),
             spec_quoted ''identquote'' ''identquoted'', Chr (is_chr CHR '']'')],
      IDENTINDEX_PATTERN =
        Seq [IDENTIFIER_PATTERN, Chr (is_chr CHR ''[''),
             named ''identindex''
               (Alt [Seq [opt (is_chr CHR ''-''), plus is_digit],
                     spec_quoted ''indexquote'' ''indexquoted'']),
             Chr (is_chr CHR '']'')]\<rparr>"

section \<open>Predicates and states used in the statements\<close>

text \<open>
  \<open>chained p n ms\<close>: the matches \<open>ms\<close> lie from offset \<open>p\<close> on in a text of length \<open>n\<close>,
  each one non-empty and starting at or after the end of the one before.  \<open>tiled\<close>: each
  one moreover starts exactly where the one before ended, and the last one ends at the
  end of the text, so that no character is skipped.
\<close>

fun chained :: "nat \<Rightarrow> nat \<Rightarrow> rmatch list \<Rightarrow> bool" where
  "chained p n [] = True"
| "chained p n (mt # ms) =
     (p \<le> m_start mt \<and> m_start mt < m_end mt \<and> m_end mt \<le> n \<and> chained (m_end mt) n ms)"

fun tiled :: "nat \<Rightarrow> nat \<Rightarrow> rmatch list \<Rightarrow> bool" where
  "tiled p n [] = (p = n)"
| "tiled p n (mt # ms) =
     (m_start mt = p \<and> p < m_end mt \<and> m_end mt \<le> n \<and> tiled (m_end mt) n ms)"

definition advancing :: "regex \<Rightarrow> string \<Rightarrow> bool" where
  "advancing rx source =
     (chained 0 (length source) (finditer rx source) \<and>
      length (finditer rx source) \<le> length source)"

definition covering :: "regex \<Rightarrow> string \<Rightarrow> bool" where
  "covering rx source = (advancing rx source \<and> tiled 0 (length source) (finditer rx source))"

text \<open>The state reached from \<open>st\<close> by consuming the characters \<open>xs\<close>.\<close>

primrec consume :: "string \<Rightarrow> mstate \<Rightarrow> mstate" where
  "consume [] st = st"
| "consume (c # cs) st = consume cs (st\<lparr>pos := Suc (pos st), rest := tl (rest st), prev := Some c\<rparr>)"

text \<open>The rules of the default delimiters, as \<^verbatim>\<open>get_lexer()\<close> compiles them.\<close>

definition default_rules :: regex where
  "default_rules = compile_liquid_rules ''{%'' ''%}'' ''{{'' ''}}''"

text \<open>The names of the groups of a pattern.\<close>

fun group_names :: "regex \<Rightarrow> string set" where
  "group_names (Chr cs) = {}"
| "group_names (Lit s) = {}"
| "group_names (Rep g lo hi cs) = {}"
| "group_names (Seq rs) = (\<Union>r \<in> set rs. group_names r)"
| "group_names (Alt rs) = (\<Union>r \<in> set rs. group_names r)"
| "group_names (Grp n r) = set_option n \<union> group_names r"
| "group_names (Backref n) = {}"
| "group_names (Ahead r) = group_names r"
| "group_names (NotAhead r) = {}"
| "group_names Eos = {}"
| "group_names WordB = {}"

section \<open>The template lexer on concrete templates\<close>

text \<open>
  C8.  Under the default delimiters, the template \<^verbatim>\<open>{% if true %}a{% endif %}\<close> gives
  exactly four tokens, in this order: the tag \<^verbatim>\<open>if\<close>, the expression \<^verbatim>\<open>true\<close>, the
  literal \<^verbatim>\<open>a\<close> and the tag \<^verbatim>\<open>endif\<close>; no expression token follows \<^verbatim>\<open>endif\<close>, and no
  error is raised.
\<close>

theorem if_endif_tokens:
  "default_lexer ''{% if true %}a{% endif %}'' =
     ([Token 1 TOKEN_TAG ''if'', Token 1 TOKEN_EXPRESSION ''true'',
       Token 1 TOKEN_LITERAL ''a'', Token 1 TOKEN_TAG ''endif''], None)"
  by code_simp

text \<open>
  C1.  The check for an unterminated region compares the literal with the default
  delimiters \<^verbatim>\<open>{{\<close> and \<^verbatim>\<open>{%\<close>, whatever delimiters the lexer was built with.  Under the
  delimiters \<^verbatim>\<open><%\<close>, \<^verbatim>\<open>%>\<close>, \<^verbatim>\<open><<\<close>, \<^verbatim>\<open>>>\<close> the unterminated statement \<^verbatim>\<open><< x\<close> is
  yielded as a literal token and no error is raised, while the plain text \<^verbatim>\<open>{{ x\<close>, which
  holds no delimiter of that configuration, raises the error.  Under the default
  delimiters \<^verbatim>\<open>{{ x\<close> raises the error at line 1.
\<close>

theorem unterminated_custom_delimiters:
  "get_lexer ''<%'' ''%>'' ''<<'' ''>>'' ''<< x'' = ([Token 1 TOKEN_LITERAL ''<< x''], None)
   \<and> get_lexer ''<%'' ''%>'' ''<<'' ''>>'' ''{{ x'' =
       ([], Some (LiquidSyntaxError Expected_close_found_eof 1))
   \<and> default_lexer ''{{ x'' = ([], Some (LiquidSyntaxError Expected_close_found_eof 1))"
  by code_simp

section \<open>The liquid-line lexer on concrete input\<close>

text \<open>
  C4.  On the three lines \<^verbatim>\<open>a\<close>, an empty line and \<^verbatim>\<open>b\<close>, the liquid-line lexer reports
  \<^verbatim>\<open>b\<close> at line 2, although two newlines precede it: the newline of the blank line lies
  between two matches and is never counted.
\<close>

theorem liquid_blank_line_not_counted:
  "tokenize_liquid_expression ([CHR ''a'', nl, nl, CHR ''b'']) =
     ([Token 1 TOKEN_TAG ''a'', Token 2 TOKEN_TAG ''b''], None)
   \<and> count_newlines (take 3 [CHR ''a'', nl, nl, CHR ''b'']) = 2"
  by code_simp

section \<open>The loop lexer on concrete input\<close>

text \<open>
  C6.  With the patterns of the specification, the loop lexer turns \<^verbatim>\<open>items[0]\<close> into
  exactly one token, of the identifier-index kind, whose value is the index text \<^verbatim>\<open>0\<close>.
\<close>

theorem loop_items_index:
  "tokenize spec_common ''items[0]'' 1 = ([Token 1 TOKEN_IDENTINDEX ''0''], None)"
  by code_simp

section \<open>Properties of the generators\<close>

lemma run_loop_split:
  "run_loop body st (xs @ ys) =
     (case loop_state body st xs of
        None \<Rightarrow> run_loop body st xs
      | Some st' \<Rightarrow>
          (fst (run_loop body st xs) @ fst (run_loop body st' ys), snd (run_loop body st' ys)))"
proof (induction xs arbitrary: st)
  case Nil
  show ?case by simp
next
  case (Cons x xs)
  obtain toks r where b: "body x st = (toks, r)"
    by (cases "body x st")
  show ?case
  proof (cases r)
    case (Inl e)
    with b show ?thesis by simp
  next
    case (Inr st')
    with b Cons.IH [of st'] show ?thesis
      by (simp split: option.splits prod.splits)
  qed
qed

lemma run_loop_token_origin:
  "t \<in> set (fst (run_loop body st xs)) \<Longrightarrow>
     \<exists>pre x post st'. xs = pre @ x # post \<and> loop_state body st pre = Some st' \<and>
       t \<in> set (fst (body x st'))"
proof (induction xs arbitrary: st)
  case Nil
  then show ?case by simp
next
  case (Cons x xs)
  obtain toks r where b: "body x st = (toks, r)"
    by (cases "body x st")
  show ?case
  proof (cases "t \<in> set toks")
    case True
    with b have "x # xs = [] @ x # xs \<and> loop_state body st [] = Some st \<and> t \<in> set (fst (body x st))"
      by simp
    then show ?thesis by blast
  next
    case False
    with Cons.prems b obtain st1 where r: "r = Inr st1" and t: "t \<in> set (fst (run_loop body st1 xs))"
      by (cases r) (auto split: prod.splits)
    from Cons.IH [OF t] obtain pre y post st' where
      a: "xs = pre @ y # post" "loop_state body st1 pre = Some st'" "t \<in> set (fst (body y st'))"
      by blast
    from a b r have "x # xs = (x # pre) @ y # post \<and> loop_state body st (x # pre) = Some st' \<and>
        t \<in> set (fst (body y st'))"
      by simp
    then show ?thesis by blast
  qed
qed



lemma template_body_lines:
  assumes "p_tokenize_template_body mt st = (toks, r)"
  shows "(\<forall>t \<in> set toks. t_linenum t = line_count st) \<and>
     (\<forall>st'. r = Inr st' \<longrightarrow> line_count st' = line_count st + count_newlines (m_text mt)) \<and>
     (\<forall>msg n. r = Inl (LiquidSyntaxError msg n) \<longrightarrow> n = line_count st + count_newlines (m_text mt))"
proof (cases "m_lastgroup mt")
  case None
  with assms show ?thesis
    by (auto simp: p_tokenize_template_body_def)
next
  case (Some kind)
  consider (stmt) "kind = TOKEN_STATEMENT"
    | (tag) "kind \<noteq> TOKEN_STATEMENT" "kind = ''TAG''"
    | (raw) "kind \<noteq> TOKEN_STATEMENT" "kind \<noteq> ''TAG''" "kind = ''RAW''"
    | (lit) "kind \<noteq> TOKEN_STATEMENT" "kind \<noteq> ''TAG''" "kind \<noteq> ''RAW''" "kind = TOKEN_LITERAL"
    | (other) "kind \<noteq> TOKEN_STATEMENT" "kind \<noteq> ''TAG''" "kind \<noteq> ''RAW''" "kind \<noteq> TOKEN_LITERAL"
    by blast
  then show ?thesis
  proof cases
    case stmt
    with assms Some show ?thesis
      by (auto simp: p_tokenize_template_body_def Token_def Let_def)
  next
    case tag
    with assms Some show ?thesis
      by (auto simp: p_tokenize_template_body_def Token_def Let_def split: if_splits)
  next
    case raw
    with assms Some show ?thesis
      by (auto simp: p_tokenize_template_body_def Token_def Let_def)
  next
    case lit
    with assms Some show ?thesis
      by (auto simp: p_tokenize_template_body_def Token_def Let_def split: if_splits)
  next
    case other
    with assms Some show ?thesis
      by (auto simp: p_tokenize_template_body_def Token_def Let_def)
  qed
qed


lemma template_state_line_count:
  "loop_state p_tokenize_template_body st xs = Some st' \<Longrightarrow>
     line_count st' = line_count st + sum_list (map (\<lambda>x. count_newlines (m_text x)) xs)"
proof (induction xs arbitrary: st)
  case Nil
  then show ?case by simp
next
  case (Cons x xs)
  then obtain st1 where s: "snd (p_tokenize_template_body x st) = Inr st1"
    and l: "loop_state p_tokenize_template_body st1 xs = Some st'"
    by (auto split: sum.splits)
  obtain toks where "p_tokenize_template_body x st = (toks, Inr st1)"
    using s by (cases "p_tokenize_template_body x st") auto
  from template_body_lines [OF this] have "line_count st1 = line_count st + count_newlines (m_text x)"
    by simp
  with Cons.IH [OF l] show ?case by simp
qed


text \<open>
  C5.  Every token the template lexer yields comes from one match of the scan, and carries
  the line count as it stood before that match was consumed: 1 plus the newlines inside
  the spans of the matches before it.  After the match the counter has grown by exactly
  the number of newlines inside its span.  This holds for the rules of every delimiter
  configuration.
\<close>

theorem template_line_accounting:
  assumes "t \<in> set (fst (p_tokenize_template source rules))"
  shows "\<exists>pre mt post st.
     finditer rules source = pre @ mt # post \<and>
     loop_state p_tokenize_template_body \<lparr>line_count = 1, lstrip = False\<rparr> pre = Some st \<and>
     t \<in> set (fst (p_tokenize_template_body mt st)) \<and>
     line_count st = 1 + sum_list (map (\<lambda>x. count_newlines (m_text x)) pre) \<and>
     t_linenum t = line_count st \<and>
     (\<forall>st'. snd (p_tokenize_template_body mt st) = Inr st' \<longrightarrow>
        line_count st' = line_count st + count_newlines (m_text mt))"
proof -
  let ?st0 = "\<lparr>line_count = 1, lstrip = False\<rparr>"
  from assms have "t \<in> set (fst (run_loop p_tokenize_template_body ?st0 (finditer rules source)))"
    by (simp add: p_tokenize_template_def)
  from run_loop_token_origin [OF this] obtain pre mt post st where
    a: "finditer rules source = pre @ mt # post"
       "loop_state p_tokenize_template_body ?st0 pre = Some st"
       "t \<in> set (fst (p_tokenize_template_body mt st))"
    by blast
  obtain toks r where b: "p_tokenize_template_body mt st = (toks, r)"
    by (cases "p_tokenize_template_body mt st")
  note bl = template_body_lines [OF b]
  from template_state_line_count [OF a(2)]
  have lc: "line_count st = 1 + sum_list (map (\<lambda>x. count_newlines (m_text x)) pre)"
    by simp
  from a(3) b have "t \<in> set toks"
    by simp
  with bl have tl: "t_linenum t = line_count st"
    by blast
  from b have "snd (p_tokenize_template_body mt st) = r"
    by simp
  with bl have nx: "\<forall>st'. snd (p_tokenize_template_body mt st) = Inr st' \<longrightarrow>
        line_count st' = line_count st + count_newlines (m_text mt)"
    by blast
  show ?thesis
    by (rule exI [of _ pre], rule exI [of _ mt], rule exI [of _ post], rule exI [of _ st])
       (intro conjI a lc tl nx)
qed




theorem template_line_accounting_witness:
  "Token 2 TOKEN_LITERAL ''b'' \<in> set (fst (default_lexer (''{{ a'' @ [nl] @ ''}}b''))) \<and>
   (\<exists>pre mt post st.
     finditer (compile_liquid_rules ''{%'' ''%}'' ''{{'' ''}}'') (''{{ a'' @ [nl] @ ''}}b'') =
       pre @ mt # post \<and>
     loop_state p_tokenize_template_body \<lparr>line_count = 1, lstrip = False\<rparr> pre = Some st \<and>
     Token 2 TOKEN_LITERAL ''b'' \<in> set (fst (p_tokenize_template_body mt st)) \<and>
     line_count st = 1 + sum_list (map (\<lambda>x. count_newlines (m_text x)) pre) \<and>
     t_linenum (Token 2 TOKEN_LITERAL ''b'') = line_count st \<and>
     (\<forall>st'. snd (p_tokenize_template_body mt st) = Inr st' \<longrightarrow>
        line_count st' = line_count st + count_newlines (m_text mt)))"
proof -
  have e: "p_tokenize_template (''{{ a'' @ [nl] @ ''}}b'')
      (compile_liquid_rules ''{%'' ''%}'' ''{{'' ''}}'') =
        ([Token 1 TOKEN_STATEMENT ''a'', Token 2 TOKEN_LITERAL ''b''], None)"
    by code_simp
  then have a: "Token 2 TOKEN_LITERAL ''b'' \<in> set (fst (p_tokenize_template (''{{ a'' @ [nl] @ ''}}b'')
      (compile_liquid_rules ''{%'' ''%}'' ''{{'' ''}}'')))"
    by simp
  have d: "default_lexer (''{{ a'' @ [nl] @ ''}}b'') = p_tokenize_template (''{{ a'' @ [nl] @ ''}}b'')
      (compile_liquid_rules ''{%'' ''%}'' ''{{'' ''}}'')"
    by (simp only: default_lexer_def get_lexer_def)
  from a d have c1: "Token 2 TOKEN_LITERAL ''b'' \<in> set (fst (default_lexer (''{{ a'' @ [nl] @ ''}}b'')))"
    by (simp only:)
  from template_line_accounting [OF a] have c2: "\<exists>pre mt post st.
     finditer (compile_liquid_rules ''{%'' ''%}'' ''{{'' ''}}'') (''{{ a'' @ [nl] @ ''}}b'') =
       pre @ mt # post \<and>
     loop_state p_tokenize_template_body \<lparr>line_count = 1, lstrip = False\<rparr> pre = Some st \<and>
     Token 2 TOKEN_LITERAL ''b'' \<in> set (fst (p_tokenize_template_body mt st)) \<and>
     line_count st = 1 + sum_list (map (\<lambda>x. count_newlines (m_text x)) pre) \<and>
     t_linenum (Token 2 TOKEN_LITERAL ''b'') = line_count st \<and>
     (\<forall>st'. snd (p_tokenize_template_body mt st) = Inr st' \<longrightarrow>
        line_count st' = line_count st + count_newlines (m_text mt))" .
  from c1 c2 show ?thesis by (rule conjI)
qed






lemma loop_lex_keywords_eq:
  "loop_lex_keywords = {''in'', ''offset'', ''limit'', ''reversed'', ''cols'', ''continue''}"
  by (simp add: loop_lex_keywords_def token_defs)

lemma loop_expression_keywords_eq:
  "loop_expression_keywords = {''in'', ''offset'', ''limit'', ''reversed'', ''cols''}"
  by (simp add: loop_expression_keywords_def token_defs)

lemma identifier_kind_distinct:
  "TOKEN_IDENTIFIER \<noteq> TOKEN_IDENTINDEX" "TOKEN_IDENTIFIER \<noteq> TOKEN_IDENTSTRING"
  "TOKEN_IDENTIFIER \<noteq> TOKEN_NEWLINE" "TOKEN_IDENTIFIER \<noteq> TOKEN_SKIP"
  "TOKEN_IDENTIFIER \<noteq> TOKEN_ILLEGAL" "TOKEN_IDENTIFIER \<noteq> TOKEN_STRING"
  "TOKEN_IDENTIFIER \<noteq> ''OP''" "TOKEN_IDENTIFIER \<noteq> ''NEWLINE''" "TOKEN_IDENTIFIER \<noteq> ''SKIP''"
  by (simp_all add: token_defs)


text \<open>
  C3, as amended.  For a match of the identifier rule, \<^verbatim>\<open>tokenize\<close> of the loop lexer
  yields a keyword token exactly when the text is one of \<^verbatim>\<open>in\<close>, \<^verbatim>\<open>offset\<close>,
  \<^verbatim>\<open>limit\<close>, \<^verbatim>\<open>reversed\<close>, \<^verbatim>\<open>cols\<close>, \<^verbatim>\<open>continue\<close>, and
  \<^verbatim>\<open>tokenize_loop_expression\<close> of \<^verbatim>\<open>liquid/lex.py\<close> exactly when it is one of \<^verbatim>\<open>in\<close>,
  \<^verbatim>\<open>offset\<close>, \<^verbatim>\<open>limit\<close>, \<^verbatim>\<open>reversed\<close>, \<^verbatim>\<open>cols\<close>; otherwise the token keeps the
  identifier kind.
\<close>

theorem loop_keyword_sets:
  assumes "m_lastgroup mt = Some TOKEN_IDENTIFIER"
  shows "tokenize_body cm mt line_num =
      ([Token (line_num + count_newlines (m_text mt))
          (if m_text mt \<in> {''in'', ''offset'', ''limit'', ''reversed'', ''cols'', ''continue''}
           then m_text mt else TOKEN_IDENTIFIER) (m_text mt)],
       Inr (line_num + count_newlines (m_text mt)))
    \<and> p_tokenize_body operators loop_expression_keywords mt line_num =
      ([Token line_num
          (if m_text mt \<in> {''in'', ''offset'', ''limit'', ''reversed'', ''cols''}
           then m_text mt else TOKEN_IDENTIFIER) (m_text mt)],
       Inr line_num)
    \<and> TOKEN_IDENTIFIER \<notin> {''in'', ''offset'', ''limit'', ''reversed'', ''cols'', ''continue''}"
proof (intro conjI)
  note ne = identifier_kind_distinct
  show "tokenize_body cm mt line_num =
      ([Token (line_num + count_newlines (m_text mt))
          (if m_text mt \<in> {''in'', ''offset'', ''limit'', ''reversed'', ''cols'', ''continue''}
           then m_text mt else TOKEN_IDENTIFIER) (m_text mt)],
       Inr (line_num + count_newlines (m_text mt)))"
  proof (cases "m_text mt \<in> loop_lex_keywords")
    case True
    with assms show ?thesis
      unfolding tokenize_body_def Let_def
      by (simp add: loop_lex_keywords_eq [symmetric])
  next
    case False
    with assms ne show ?thesis
      unfolding tokenize_body_def Let_def
      by (simp add: loop_lex_keywords_eq [symmetric])
  qed
  show "p_tokenize_body operators loop_expression_keywords mt line_num =
      ([Token line_num
          (if m_text mt \<in> {''in'', ''offset'', ''limit'', ''reversed'', ''cols''}
           then m_text mt else TOKEN_IDENTIFIER) (m_text mt)],
       Inr line_num)"
  proof (cases "m_text mt \<in> loop_expression_keywords")
    case True
    with assms show ?thesis
      unfolding p_tokenize_body_def Let_def
      by (simp add: loop_expression_keywords_eq [symmetric])
  next
    case False
    with assms ne show ?thesis
      unfolding p_tokenize_body_def Let_def
      by (simp add: loop_expression_keywords_eq [symmetric])
  qed
  show "TOKEN_IDENTIFIER \<notin> {''in'', ''offset'', ''limit'', ''reversed'', ''cols'', ''continue''}"
    by (simp add: token_defs)
qed





theorem loop_keyword_sets_witness:
  "m_lastgroup \<lparr>m_start = 0, m_end = 8, m_text = ''continue'',
       m_groups = [(''identifier'', ''continue'')], m_lastgroup = Some ''identifier''\<rparr> =
     Some TOKEN_IDENTIFIER
   \<and> tokenize_body spec_common \<lparr>m_start = 0, m_end = 8, m_text = ''continue'',
       m_groups = [(''identifier'', ''continue'')], m_lastgroup = Some ''identifier''\<rparr> 1 =
     ([Token 1 ''continue'' ''continue''], Inr 1)
   \<and> p_tokenize_body Map.empty loop_expression_keywords \<lparr>m_start = 0, m_end = 8,
       m_text = ''continue'', m_groups = [(''identifier'', ''continue'')],
       m_lastgroup = Some ''identifier''\<rparr> 1 =
     ([Token 1 TOKEN_IDENTIFIER ''continue''], Inr 1)"
proof -
  let ?mt = "\<lparr>m_start = 0, m_end = 8, m_text = ''continue'',
       m_groups = [(''identifier'', ''continue'')], m_lastgroup = Some ''identifier''\<rparr>"
  have h: "m_lastgroup ?mt = Some TOKEN_IDENTIFIER"
    by (simp add: TOKEN_IDENTIFIER_def)
  have n: "count_newlines (m_text ?mt) = 0"
    by (simp add: count_newlines_def nl_def)
  from loop_keyword_sets [OF h, of spec_common 1 Map.empty] h n show ?thesis
    by simp
qed





text \<open>
  C3 as stated fails: \<^verbatim>\<open>tokenize_loop_expression\<close> leaves \<^verbatim>\<open>continue\<close> an identifier,
  since its keyword set has no \<^verbatim>\<open>continue\<close>.
\<close>

theorem continue_is_identifier_in_lex:
  "tokenize_loop_expression Map.empty ''continue'' = ([Token 1 TOKEN_IDENTIFIER ''continue''], None)
   \<and> TOKEN_IDENTIFIER \<noteq> ''continue''
   \<and> loop_expression_keywords \<noteq> {''in'', ''offset'', ''limit'', ''reversed'', ''cols'', ''continue''}"
proof (intro conjI)
  show "tokenize_loop_expression Map.empty ''continue'' =
      ([Token 1 TOKEN_IDENTIFIER ''continue''], None)"
    by code_simp
  show "TOKEN_IDENTIFIER \<noteq> ''continue''"
    by (simp add: TOKEN_IDENTIFIER_def)
  have "''continue'' \<notin> loop_expression_keywords"
    by (simp add: loop_expression_keywords_eq)
  moreover have "''continue'' \<in> {''in'', ''offset'', ''limit'', ''reversed'', ''cols'', ''continue''}"
    by simp
  ultimately show "loop_expression_keywords \<noteq>
      {''in'', ''offset'', ''limit'', ''reversed'', ''cols'', ''continue''}"
    by (rule_tac notI) (simp only:)
qed

section \<open>The branches of the template lexer\<close>

lemma template_kinds_distinct:
  "TOKEN_STATEMENT \<noteq> ''TAG''" "TOKEN_STATEMENT \<noteq> ''RAW''" "TOKEN_STATEMENT \<noteq> TOKEN_LITERAL"
  "''RAW'' \<noteq> TOKEN_STATEMENT" "''TAG'' \<noteq> TOKEN_STATEMENT" "TOKEN_LITERAL \<noteq> TOKEN_STATEMENT"
  "TOKEN_LITERAL \<noteq> ''TAG''" "TOKEN_LITERAL \<noteq> ''RAW''"
  by (simp_all add: token_defs)

lemma body_statement:
  "m_lastgroup mt = Some TOKEN_STATEMENT \<Longrightarrow>
     p_tokenize_template_body mt st =
       ([Token (line_count st) TOKEN_STATEMENT (group_text mt ''stmt'')],
        Inr \<lparr>line_count = line_count st + count_newlines (m_text mt),
             lstrip = (group_text mt ''rss'' \<noteq> [])\<rparr>)"
  by (simp add: p_tokenize_template_body_def Let_def)

lemma body_tag:
  "m_lastgroup mt = Some ''TAG'' \<Longrightarrow>
     p_tokenize_template_body mt st =
       (Token (line_count st) TOKEN_TAG (group_text mt ''name'') #
          (if group_text mt ''expr'' = [] then []
           else [Token (line_count st) TOKEN_EXPRESSION (group_text mt ''expr'')]),
        Inr \<lparr>line_count = line_count st + count_newlines (m_text mt),
             lstrip = (group_text mt ''rst'' \<noteq> [])\<rparr>)"
  using template_kinds_distinct by (simp add: p_tokenize_template_body_def Let_def)

lemma body_raw:
  "m_lastgroup mt = Some ''RAW'' \<Longrightarrow>
     p_tokenize_template_body mt st =
       ([Token (line_count st) TOKEN_LITERAL (group_text mt ''raw'')],
        Inr \<lparr>line_count = line_count st + count_newlines (m_text mt), lstrip = lstrip st\<rparr>)"
  using template_kinds_distinct by (simp add: p_tokenize_template_body_def Let_def)

lemma body_literal:
  "m_lastgroup mt = Some TOKEN_LITERAL \<Longrightarrow>
     p_tokenize_template_body mt st =
       (if trimmed mt st = [] then
          ([], Inr \<lparr>line_count = line_count st + count_newlines (m_text mt), lstrip = lstrip st\<rparr>)
        else if startswith (trimmed mt st) ''{{'' \<or> startswith (trimmed mt st) ''{%'' then
          ([], Inl (LiquidSyntaxError Expected_close_found_eof
                 (line_count st + count_newlines (m_text mt))))
        else
          ([Token (line_count st) TOKEN_LITERAL (trimmed mt st)],
           Inr \<lparr>line_count = line_count st + count_newlines (m_text mt), lstrip = lstrip st\<rparr>))"
  using template_kinds_distinct
  by (simp add: p_tokenize_template_body_def Let_def trimmed_def)

lemma body_keeps_lstrip:
  assumes "p_tokenize_template_body mt st = (toks, Inr st')"
    and "m_lastgroup mt \<noteq> Some TOKEN_STATEMENT" and "m_lastgroup mt \<noteq> Some ''TAG''"
  shows "lstrip st' = lstrip st"
proof (cases "m_lastgroup mt")
  case None
  with assms show ?thesis
    by (simp add: p_tokenize_template_body_def)
next
  case (Some kind)
  with assms have k: "kind \<noteq> TOKEN_STATEMENT" "kind \<noteq> ''TAG''"
    by simp_all
  show ?thesis
  proof (cases "kind = ''RAW''")
    case True
    with Some assms(1) show ?thesis
      by (auto simp: body_raw)
  next
    case nraw: False
    show ?thesis
    proof (cases "kind = TOKEN_LITERAL")
      case True
      with Some assms(1) show ?thesis
        by (auto simp: body_literal split: if_splits)
    next
      case False
      with Some k nraw assms(1) show ?thesis
        by (auto simp: p_tokenize_template_body_def Let_def)
    qed
  qed
qed




text \<open>
  C10.  The left-trim flag is assigned only in the statement and tag branches: every
  other match leaves it as it was.  A raw block yields its interior untrimmed and keeps
  the flag.  So when a statement or tag with a trailing trim marker is followed by a raw
  block and then a literal run, the literal run is still handled with the flag set: the
  text it is yielded with has its leading whitespace stripped.
\<close>

theorem raw_keeps_left_trim:
  assumes t: "(m_lastgroup t = Some TOKEN_STATEMENT \<and> group_text t ''rss'' \<noteq> []) \<or>
              (m_lastgroup t = Some ''TAG'' \<and> group_text t ''rst'' \<noteq> [])"
    and r: "m_lastgroup r = Some ''RAW''"
    and l: "m_lastgroup l = Some TOKEN_LITERAL"
  shows "\<exists>toks st1 st2.
      p_tokenize_template_body t st = (toks, Inr st1) \<and> lstrip st1 \<and>
      p_tokenize_template_body r st1 =
        ([Token (line_count st1) TOKEN_LITERAL (group_text r ''raw'')], Inr st2) \<and>
      lstrip st2 \<and>
      run_loop p_tokenize_template_body st (t # r # l # post) =
        (toks @ Token (line_count st1) TOKEN_LITERAL (group_text r ''raw'') #
           fst (run_loop p_tokenize_template_body st2 (l # post)),
         snd (run_loop p_tokenize_template_body st2 (l # post))) \<and>
      (\<forall>tok \<in> set (fst (p_tokenize_template_body l st2)).
         t_value tok =
           (if group_text l ''rstrip'' \<noteq> [] then str_rstrip (str_lstrip (m_text l))
            else str_lstrip (m_text l))) \<and>
    (\<forall>mt s toks s'. p_tokenize_template_body mt s = (toks, Inr s') \<longrightarrow>
       m_lastgroup mt \<noteq> Some TOKEN_STATEMENT \<longrightarrow> m_lastgroup mt \<noteq> Some ''TAG'' \<longrightarrow>
       lstrip s' = lstrip s)"
proof -
  from t obtain toks st1 where
    b1: "p_tokenize_template_body t st = (toks, Inr st1)" and f1: "lstrip st1"
  proof
    assume a: "m_lastgroup t = Some TOKEN_STATEMENT \<and> group_text t ''rss'' \<noteq> []"
    then have "p_tokenize_template_body t st =
       ([Token (line_count st) TOKEN_STATEMENT (group_text t ''stmt'')],
        Inr \<lparr>line_count = line_count st + count_newlines (m_text t), lstrip = True\<rparr>)"
      by (simp add: body_statement)
    then show ?thesis
      by (rule that) simp
  next
    assume a: "m_lastgroup t = Some ''TAG'' \<and> group_text t ''rst'' \<noteq> []"
    then have "p_tokenize_template_body t st =
       (Token (line_count st) TOKEN_TAG (group_text t ''name'') #
          (if group_text t ''expr'' = [] then []
           else [Token (line_count st) TOKEN_EXPRESSION (group_text t ''expr'')]),
        Inr \<lparr>line_count = line_count st + count_newlines (m_text t), lstrip = True\<rparr>)"
      by (simp add: body_tag)
    then show ?thesis
      by (rule that) simp
  qed
  define st2 where "st2 = \<lparr>line_count = line_count st1 + count_newlines (m_text r),
      lstrip = lstrip st1\<rparr>"
  have b2: "p_tokenize_template_body r st1 =
      ([Token (line_count st1) TOKEN_LITERAL (group_text r ''raw'')], Inr st2)"
    using r by (simp add: body_raw st2_def)
  have f2: "lstrip st2"
    using f1 by (simp add: st2_def)
  have run: "run_loop p_tokenize_template_body st (t # r # l # post) =
        (toks @ Token (line_count st1) TOKEN_LITERAL (group_text r ''raw'') #
           fst (run_loop p_tokenize_template_body st2 (l # post)),
         snd (run_loop p_tokenize_template_body st2 (l # post)))"
    by (simp add: b1 b2 split: prod.splits)
  have tr: "trimmed l st2 =
      (if group_text l ''rstrip'' \<noteq> [] then str_rstrip (str_lstrip (m_text l))
       else str_lstrip (m_text l))"
    using f2 by (simp add: trimmed_def)
  have lit: "\<forall>tok \<in> set (fst (p_tokenize_template_body l st2)). t_value tok = trimmed l st2"
    using l by (simp add: body_literal Token_def)
  have only: "\<forall>mt s toks s'. p_tokenize_template_body mt s = (toks, Inr s') \<longrightarrow>
       m_lastgroup mt \<noteq> Some TOKEN_STATEMENT \<longrightarrow> m_lastgroup mt \<noteq> Some ''TAG'' \<longrightarrow>
       lstrip s' = lstrip s"
    by (intro allI impI) (rule body_keeps_lstrip)
  from b1 f1 b2 f2 run lit [unfolded tr] only show ?thesis
    by (intro exI conjI)
qed


theorem raw_keeps_left_trim_witness:
  "finditer (compile_liquid_rules ''{%'' ''%}'' ''{{'' ''}}'')
       ''{{ x -}}{% raw %}  a  {% endraw %}  b'' =
     [\<lparr>m_start = 0, m_end = 8, m_text = ''{{ x -}}'',
        m_groups = [(''statement'', ''{{ x -}}''), (''rss'', ''-''), (''stmt'', ''x'')],
        m_lastgroup = Some ''statement''\<rparr>,
      \<lparr>m_start = 8, m_end = 34, m_text = ''{% raw %}  a  {% endraw %}'',
        m_groups = [(''RAW'', ''{% raw %}  a  {% endraw %}''), (''raw'', ''  a  '')],
        m_lastgroup = Some ''RAW''\<rparr>,
      \<lparr>m_start = 34, m_end = 37, m_text = ''  b'', m_groups = [(''literal'', ''  b'')],
        m_lastgroup = Some ''literal''\<rparr>]
   \<and> run_loop p_tokenize_template_body \<lparr>line_count = 1, lstrip = False\<rparr>
       [\<lparr>m_start = 0, m_end = 8, m_text = ''{{ x -}}'',
        m_groups = [(''statement'', ''{{ x -}}''), (''rss'', ''-''), (''stmt'', ''x'')],
        m_lastgroup = Some ''statement''\<rparr>,
        \<lparr>m_start = 8, m_end = 34, m_text = ''{% raw %}  a  {% endraw %}'',
        m_groups = [(''RAW'', ''{% raw %}  a  {% endraw %}''), (''raw'', ''  a  '')],
        m_lastgroup = Some ''RAW''\<rparr>,
        \<lparr>m_start = 34, m_end = 37, m_text = ''  b'', m_groups = [(''literal'', ''  b'')],
        m_lastgroup = Some ''literal''\<rparr>] =
     ([Token 1 TOKEN_STATEMENT ''x'', Token 1 TOKEN_LITERAL ''  a  '',
       Token 1 TOKEN_LITERAL ''b''], None)"
proof -
  let ?t = "\<lparr>m_start = 0, m_end = 8, m_text = ''{{ x -}}'',
        m_groups = [(''statement'', ''{{ x -}}''), (''rss'', ''-''), (''stmt'', ''x'')],
        m_lastgroup = Some ''statement''\<rparr>"
  let ?r = "\<lparr>m_start = 8, m_end = 34, m_text = ''{% raw %}  a  {% endraw %}'',
        m_groups = [(''RAW'', ''{% raw %}  a  {% endraw %}''), (''raw'', ''  a  '')],
        m_lastgroup = Some ''RAW''\<rparr>"
  let ?l = "\<lparr>m_start = 34, m_end = 37, m_text = ''  b'', m_groups = [(''literal'', ''  b'')],
        m_lastgroup = Some ''literal''\<rparr>"
  let ?st = "\<lparr>line_count = 1, lstrip = False\<rparr>"
  have scan: "finditer (compile_liquid_rules ''{%'' ''%}'' ''{{'' ''}}'')
       ''{{ x -}}{% raw %}  a  {% endraw %}  b'' = [?t, ?r, ?l]"
    by code_simp
  have ht: "(m_lastgroup ?t = Some TOKEN_STATEMENT \<and> group_text ?t ''rss'' \<noteq> []) \<or>
      (m_lastgroup ?t = Some ''TAG'' \<and> group_text ?t ''rst'' \<noteq> [])"
    by (simp add: TOKEN_STATEMENT_def group_text_def group_def)
  have hr: "m_lastgroup ?r = Some ''RAW''"
    by simp
  have hl: "m_lastgroup ?l = Some TOKEN_LITERAL"
    by (simp add: TOKEN_LITERAL_def)
  from raw_keeps_left_trim [OF ht hr hl, of ?st "[]"] obtain toks st1 st2 where
    a: "p_tokenize_template_body ?t ?st = (toks, Inr st1)"
       "p_tokenize_template_body ?r st1 =
          ([Token (line_count st1) TOKEN_LITERAL (group_text ?r ''raw'')], Inr st2)"
       "lstrip st2"
       "run_loop p_tokenize_template_body ?st [?t, ?r, ?l] =
          (toks @ Token (line_count st1) TOKEN_LITERAL (group_text ?r ''raw'') #
             fst (run_loop p_tokenize_template_body st2 [?l]),
           snd (run_loop p_tokenize_template_body st2 [?l]))"
    by blast
  have t1: "p_tokenize_template_body ?t ?st =
      ([Token 1 TOKEN_STATEMENT ''x''], Inr \<lparr>line_count = 1, lstrip = True\<rparr>)"
    by code_simp
  with a(1) have toks: "toks = [Token 1 TOKEN_STATEMENT ''x'']"
    and st1: "st1 = \<lparr>line_count = 1, lstrip = True\<rparr>"
    by simp_all
  have r1: "p_tokenize_template_body ?r \<lparr>line_count = 1, lstrip = True\<rparr> =
      ([Token 1 TOKEN_LITERAL ''  a  ''], Inr \<lparr>line_count = 1, lstrip = True\<rparr>)"
    by code_simp
  with a(2) st1 have st2: "st2 = \<lparr>line_count = 1, lstrip = True\<rparr>"
    by simp
  have l1: "run_loop p_tokenize_template_body \<lparr>line_count = 1, lstrip = True\<rparr> [?l] =
      ([Token 1 TOKEN_LITERAL ''b''], None)"
    by code_simp
  have g: "group_text ?r ''raw'' = ''  a  ''"
    by (simp add: group_text_def group_def)
  from a(4) have "run_loop p_tokenize_template_body ?st [?t, ?r, ?l] =
     ([Token 1 TOKEN_STATEMENT ''x'', Token 1 TOKEN_LITERAL ''  a  '',
       Token 1 TOKEN_LITERAL ''b''], None)"
    unfolding toks st1 st2 l1 g by simp
  with scan show ?thesis
    by (rule conjI)
qed

section \<open>Scanning never stalls\<close>

lemma tiled_chained: "tiled p n ms \<Longrightarrow> chained p n ms"
  by (induction ms arbitrary: p) auto

lemma chained_length: "chained p n ms \<Longrightarrow> p + length ms \<le> n \<or> ms = []"
proof (induction ms arbitrary: p)
  case Nil
  then show ?case by simp
next
  case (Cons mt ms)
  then have "chained (m_end mt) n ms" and "p < m_end mt" and "m_end mt \<le> n"
    by simp_all
  with Cons.IH [of "m_end mt"] show ?case
    by auto
qed

lemma m_Alt_None:
  "m (Alt rs) k st = None \<Longrightarrow> r \<in> set rs \<Longrightarrow> m r k st = None"
  by (induction rs) (auto split: option.splits)

lemma m_Alt_Some:
  "m (Alt rs) k st = Some res \<Longrightarrow> \<exists>r \<in> set rs. m r k st = Some res"
  by (induction rs) (auto split: option.splits)

lemma m_named_rules:
  assumes "m (Alt (map (\<lambda>(name, pattern). named name pattern) rules)) k st = Some res"
  shows "\<exists>name pat x. (name, pat) \<in> set rules \<and> ext st x \<and>
      (\<not> nullable pat \<longrightarrow> pos st < pos x) \<and>
      m pat (\<lambda>y. k (close_group (Some name) st y)) st = Some res \<and>
      k (close_group (Some name) st x) = Some res"
proof -
  from m_Alt_Some [OF assms] obtain name pat where
    a: "(name, pat) \<in> set rules" "m (named name pat) k st = Some res"
    by auto
  then have b: "m pat (\<lambda>y. k (close_group (Some name) st y)) st = Some res"
    by (simp add: named_def)
  from m_ext [OF b] obtain x where "ext st x" "\<not> nullable pat \<longrightarrow> pos st < pos x"
    "k (close_group (Some name) st x) = Some res"
    by blast
  with a(1) b show ?thesis
    by blast
qed

lemma search_Some:
  "search rx must_advance st = Some (s, e) \<Longrightarrow>
     \<exists>b. m rx (accept b (pos s)) (fresh s) = Some e"
proof (induction rx must_advance st rule: search.induct)
  case (1 rx must_advance st)
  note unf = search.simps [of rx must_advance st]
  show ?case
  proof (cases "m rx (accept must_advance (pos st)) (fresh st)")
    case (Some e')
    with "1.prems" have "s = st" "e = e'"
      by (simp_all add: unf)
    with Some show ?thesis
      by blast
  next
    case None
    with "1.prems" obtain st1 where
      nc: "next_char any_char st = Some st1" and sr: "search rx False st1 = Some (s, e)"
      by (auto simp: unf split: option.splits)
    from "1.IH" [OF None nc sr] show ?thesis .
  qed
qed

lemma finditer_from_all:
  "mt \<in> set (finditer_from rx must_advance st) \<Longrightarrow>
   (\<And>b s e. m rx (accept b (pos s)) (fresh s) = Some e \<Longrightarrow> Q (mk_match s e)) \<Longrightarrow> Q mt"
proof (induction rx must_advance st rule: finditer_from.induct)
  case (1 rx must_advance st)
  note unf = finditer_from.simps [of rx must_advance st]
  show ?case
  proof (cases "search rx must_advance st")
    case None
    with "1.prems"(1) show ?thesis
      by (simp add: unf)
  next
    case (Some se)
    obtain s e where se: "se = (s, e)"
      by (cases se)
    with Some "1.prems"(1) consider "mt = mk_match s e"
      | "mt \<in> set (finditer_from rx (pos e = pos s) (fresh e))"
      by (auto simp: unf)
    then show ?thesis
    proof cases
      case 1
      from Some se search_Some [of rx must_advance st s e] obtain b where
        "m rx (accept b (pos s)) (fresh s) = Some e"
        by blast
      with 1 "1.prems"(2) show ?thesis
        by simp
    next
      case 2
      from "1.IH" [OF Some se [symmetric] 2 "1.prems"(2)] show ?thesis
        by simp
    qed
  qed
qed

lemma m_nonnullable_progress:
  assumes "\<not> nullable rx" and "m rx (accept b p) st = Some e"
  shows "ext st e" and "pos st < pos e"
proof -
  from m_ext [OF assms(2)] assms(1) obtain x where
    "ext st x" "pos st < pos x" "accept b p x = Some e"
    by blast
  then show "ext st e" and "pos st < pos e"
    by (auto simp: accept_def split: if_splits)
qed

lemma finditer_from_chained:
  "\<not> nullable rx \<Longrightarrow>
     chained (pos st) (pos st + length (rest st)) (finditer_from rx must_advance st)"
proof (induction rx must_advance st rule: finditer_from.induct)
  case (1 rx must_advance st)
  note unf = finditer_from.simps [of rx must_advance st]
  show ?case
  proof (cases "search rx must_advance st")
    case None
    then show ?thesis
      by (simp add: unf)
  next
    case (Some se)
    obtain s e where se: "se = (s, e)"
      by (cases se)
    from Some se have sr: "search rx must_advance st = Some (s, e)"
      by simp
    from search_ext [OF sr] have a: "ext st s" "ext s e"
      by simp_all
    from search_Some [OF sr] obtain b where
      "m rx (accept b (pos s)) (fresh s) = Some e"
      by blast
    from m_nonnullable_progress(2) [OF "1.prems" this] have lt: "pos s < pos e"
      by (simp add: fresh_def)
    from a have "ext st e"
      by (rule ext_trans)
    then have tot: "pos e + length (rest e) = pos st + length (rest st)"
      by (auto simp: ext_def)
    from "1.IH" [OF Some se [symmetric] "1.prems"]
    have ih: "chained (pos e) (pos e + length (rest e))
        (finditer_from rx (pos e = pos s) (fresh e))"
      by (simp add: fresh_def)
    from a lt tot ih sr show ?thesis
      by (simp add: unf mk_match_def ext_def)
  qed
qed

lemma finditer_chained:
  "\<not> nullable rx \<Longrightarrow> chained 0 (length source) (finditer rx source)"
  using finditer_from_chained [of rx "start_state source" False]
  by (simp add: finditer_def start_state_def)




lemma catch_all_matches:
  assumes "rules \<noteq> []" and "snd (last rules) = Chr any_char" and "rest st \<noteq> []"
  shows "m (Alt (map (\<lambda>(name, pattern). named name pattern) rules)) (accept b (pos st)) (fresh st)
    \<noteq> None"
proof
  assume none: "m (Alt (map (\<lambda>(name, pattern). named name pattern) rules))
    (accept b (pos st)) (fresh st) = None"
  obtain n where l: "last rules = (n, Chr any_char)"
    using assms(2) by (cases "last rules") simp
  from assms(1) have "last rules \<in> set rules"
    by simp
  with l have "named n (Chr any_char) \<in> set (map (\<lambda>(name, pattern). named name pattern) rules)"
    by force
  from m_Alt_None [OF none this]
  have x: "m (named n (Chr any_char)) (accept b (pos st)) (fresh st) = None" .
  from assms(3) obtain c cs where "rest st = c # cs"
    by (cases "rest st") auto
  with x show False
    by (simp add: named_def next_char_def fresh_def any_char_def accept_def close_group_def)
qed

lemma search_at_start:
  "m rx (accept b (pos st)) (fresh st) = Some e \<Longrightarrow> search rx b st = Some (st, e)"
  by (simp add: search.simps [of rx b st])

lemma finditer_from_tiled:
  "\<not> nullable rx \<Longrightarrow>
   (\<And>b st. rest st \<noteq> [] \<Longrightarrow> m rx (accept b (pos st)) (fresh st) \<noteq> None) \<Longrightarrow>
     tiled (pos st) (pos st + length (rest st)) (finditer_from rx must_advance st)"
proof (induction rx must_advance st rule: finditer_from.induct)
  case (1 rx must_advance st)
  note unf = finditer_from.simps [of rx must_advance st]
  show ?case
  proof (cases "rest st = []")
    case True
    have "search rx must_advance st = None"
    proof (rule ccontr)
      assume "search rx must_advance st \<noteq> None"
      then obtain s e where sr: "search rx must_advance st = Some (s, e)"
        by auto
      from search_ext [OF sr] have a: "ext st s" "ext s e"
        by simp_all
      from search_Some [OF sr] obtain b where
        "m rx (accept b (pos s)) (fresh s) = Some e"
        by blast
      from m_nonnullable_progress(2) [OF "1.prems"(1) this] have "pos s < pos e"
        by (simp add: fresh_def)
      moreover from a have "ext st e"
        by (rule ext_trans)
      with True have "pos e = pos st"
        by (simp add: ext_def)
      moreover from a(1) have "pos st \<le> pos s"
        by (simp add: ext_def)
      ultimately show False
        by simp
    qed
    with True show ?thesis
      by (simp add: unf)
  next
    case False
    from "1.prems"(2) [OF False, of must_advance] obtain e where
      me: "m rx (accept must_advance (pos st)) (fresh st) = Some e"
      by auto
    from search_at_start [OF me] have sr: "search rx must_advance st = Some (st, e)" .
    from m_nonnullable_progress [OF "1.prems"(1) me] have x: "ext st e" "pos st < pos e"
      by (simp_all add: fresh_def ext_def)
    then have tot: "pos e + length (rest e) = pos st + length (rest st)"
      by (auto simp: ext_def)
    from "1.IH" [OF sr refl "1.prems"]
    have ih: "tiled (pos e) (pos e + length (rest e))
        (finditer_from rx (pos e = pos st) (fresh e))"
      by (simp add: fresh_def)
    from x tot ih sr show ?thesis
      by (simp add: unf mk_match_def ext_def)
  qed
qed

lemma finditer_tiled:
  assumes "rules \<noteq> []" and "snd (last rules) = Chr any_char"
    and "\<forall>r \<in> set rules. \<not> nullable (snd r)"
  shows "tiled 0 (length source)
    (finditer (Alt (map (\<lambda>(name, pattern). named name pattern) rules)) source)"
proof -
  let ?rx = "Alt (map (\<lambda>(name, pattern). named name pattern) rules)"
  from assms(3) have nn: "\<not> nullable ?rx"
    by (auto simp: named_def)
  have "tiled (pos (start_state source))
     (pos (start_state source) + length (rest (start_state source)))
     (finditer_from ?rx False (start_state source))"
    by (rule finditer_from_tiled [OF nn]) (rule catch_all_matches [OF assms(1,2)])
  then show ?thesis
    by (simp add: finditer_def start_state_def)
qed





lemma lazy_any_reaches_end_aux:
  "\<not> g \<Longrightarrow> hi = None \<Longrightarrow> cs = any_char \<Longrightarrow>
   lo \<le> length (rest st) \<Longrightarrow> p < pos st + length (rest st) \<Longrightarrow>
   (\<And>e. rest e = [] \<Longrightarrow> p < pos e \<Longrightarrow> K e \<noteq> None) \<Longrightarrow>
     rep g cs lo hi K st \<noteq> None"
proof (induction g cs lo hi K st rule: rep.induct)
  case (1 g cs lo hi K st)
  note unf = rep.simps [of _ cs _ _ K st]
  note K = "1.prems"(6)
  show ?case
  proof (cases "rest st")
    case Nil
    with "1.prems"(4,5) have "lo = 0" and "p < pos st"
      by simp_all
    with Nil K [of st] "1.prems"(2) show ?thesis
      by (simp add: unf next_char_def)
  next
    case (Cons c cs')
    define st1 where "st1 = st\<lparr>pos := Suc (pos st), rest := cs', prev := Some c\<rparr>"
    have nc: "(if hi = Some 0 then None else next_char cs st) = Some st1"
      using Cons "1.prems"(2,3) by (simp add: next_char_def any_char_def st1_def)
    have len: "p < pos st1 + length (rest st1)"
      using "1.prems"(5) Cons by (simp add: st1_def)
    have lo1: "lo - 1 \<le> length (rest st1)"
      using "1.prems"(4) Cons by (simp add: st1_def)
    have dh: "dec hi = None"
      using "1.prems"(2) by (simp add: dec_def)
    show ?thesis
    proof (cases "0 < lo")
      case True
      from "1.IH"(1) [OF nc True "1.prems"(1) dh "1.prems"(3) lo1 len K]
      have "rep g cs (lo - 1) (dec hi) K st1 \<noteq> None" .
      with nc True show ?thesis
        by (simp add: unf)
    next
      case False
      show ?thesis
      proof (cases "K st")
        case (Some a)
        with nc False "1.prems"(1) show ?thesis
          by (simp add: unf)
      next
        case None
        have "0 \<le> length (rest st1)" by simp
        from "1.IH"(3) [OF nc False "1.prems"(1) None "1.prems"(1) dh "1.prems"(3) this len K]
        have "rep g cs 0 (dec hi) K st1 \<noteq> None" .
        with nc False None "1.prems"(1) show ?thesis
          by (simp add: unf)
      qed
    qed
  qed
qed

lemma literal_rule_matches:
  assumes "rest st \<noteq> []"
  shows "m (named n (Seq [lazy_plus any_char, Ahead (Alt [A, Eos])])) (accept b (pos st)) (fresh st)
    \<noteq> None"
proof -
  let ?k = "\<lambda>y. accept b (pos st) (close_group (Some n) (fresh st) y)"
  let ?K = "m (Seq [Ahead (Alt [A, Eos])]) ?k"
  have K: "?K e \<noteq> None" if "rest e = []" and "pos st < pos e" for e
  proof (cases "m A Some e")
    case None
    with that show ?thesis
      by (simp add: accept_def close_group_def)
  next
    case (Some a)
    with that show ?thesis
      by (simp add: accept_def close_group_def)
  qed
  have "rep False any_char 1 None ?K (fresh st) \<noteq> None"
  proof (rule lazy_any_reaches_end_aux [where p = "pos st"])
    show "1 \<le> length (rest (fresh st))"
      using assms by (cases "rest st") (simp_all add: fresh_def)
    show "pos st < pos (fresh st) + length (rest (fresh st))"
      using assms by (simp add: fresh_def)
    show "?K e \<noteq> None" if "rest e = []" and "pos st < pos e" for e
      using that by (rule K)
  qed simp_all
  then show ?thesis
    by (simp add: named_def lazy_plus_def)
qed





lemmas quantifier_defs = star_def plus_def opt_def lazy_star_def lazy_plus_def named_def

lemma template_tiled:
  assumes "tag_start \<noteq> [] \<or> tag_end \<noteq> []" and "stmt_start \<noteq> [] \<or> stmt_end \<noteq> []"
  shows "tiled 0 (length source)
    (finditer (compile_liquid_rules tag_start tag_end stmt_start stmt_end) source)"
proof -
  let ?rules = "liquid_rules tag_start tag_end stmt_start stmt_end"
  let ?rx = "compile_liquid_rules tag_start tag_end stmt_start stmt_end"
  have rx: "?rx = Alt (map (\<lambda>(name, pattern). named name pattern) ?rules)"
    by (simp add: compile_liquid_rules_def p_compile_rules_def)
  have nn: "\<not> nullable ?rx"
    using assms
    by (auto simp: compile_liquid_rules_def p_compile_rules_def liquid_rules_def Let_def
        quantifier_defs)
  have lit: "m ?rx (accept b (pos st)) (fresh st) \<noteq> None" if "rest st \<noteq> []" for b st
  proof
    assume none: "m ?rx (accept b (pos st)) (fresh st) = None"
    have "named TOKEN_LITERAL
        (Seq [lazy_plus any_char,
              Ahead (Alt [Grp None (Seq [Grp None (Alt [Lit tag_start, Lit stmt_start]),
                                         named ''rstrip'' (opt (is_chr CHR ''-''))]),
                          Eos])])
      \<in> set (map (\<lambda>(name, pattern). named name pattern) ?rules)"
      by (simp add: liquid_rules_def Let_def)
    from m_Alt_None [OF none [unfolded rx] this] literal_rule_matches [OF that]
    show False
      by blast
  qed
  have "tiled (pos (start_state source))
     (pos (start_state source) + length (rest (start_state source)))
     (finditer_from ?rx False (start_state source))"
    by (rule finditer_from_tiled [OF nn]) (rule lit)
  then show ?thesis
    by (simp add: finditer_def start_state_def)
qed

lemma liquid_expression_chained:
  "chained 0 (length source) (finditer LIQUID_EXPRESSION_RE source)"
  by (rule finditer_chained) (simp add: LIQUID_EXPRESSION_RE_def quantifier_defs)

lemma expression_tables_tiled:
  "tiled 0 (length source) (finditer (p_compile_rules identifier_rules) source)"
  "tiled 0 (length source) (finditer (p_compile_rules filtered_expression_rules) source)"
  "tiled 0 (length source) (finditer (p_compile_rules assignment_expression_rules) source)"
  "tiled 0 (length source) (finditer (p_compile_rules boolean_expression_rules) source)"
  "tiled 0 (length source) (finditer (p_compile_rules loop_expression_rules) source)"
  "tiled 0 (length source) (finditer (p_compile_rules include_expression_rules) source)"
  unfolding p_compile_rules_def
  by (rule finditer_tiled;
      simp add: identifier_rules_def filtered_expression_rules_def
        assignment_expression_rules_def boolean_expression_rules_def
        loop_expression_rules_def include_expression_rules_def
        IDENTIFIER_PATTERN_def STRING_PATTERN_def quantifier_defs)+

lemma loop_lexer_tiled:
  assumes "\<not> nullable (IDENTINDEX_PATTERN cm)" and "\<not> nullable (IDENTSTRING_PATTERN cm)"
    and "\<not> nullable (COMMON_IDENTIFIER_PATTERN cm)"
  shows "tiled 0 (length source) (finditer (OUTPUT_RE cm) source)"
  unfolding OUTPUT_RE_def
  by (rule finditer_tiled; simp add: token_rules_def quantifier_defs assms)





lemma chained_advancing:
  "chained 0 (length source) (finditer rx source) \<Longrightarrow> advancing rx source"
  using chained_length [of 0 "length source" "finditer rx source"]
  by (auto simp: advancing_def)

lemma tiled_covering:
  "tiled 0 (length source) (finditer rx source) \<Longrightarrow> covering rx source"
  by (simp add: covering_def chained_advancing tiled_chained)

text \<open>
  C9.  Every scan of every tokenizer moves forward: each match is non-empty and starts at
  or after the end of the match before, so there are at most as many matches as the
  source has characters, and each tokenizer, a total function of the finite list of
  matches, returns its tokens or a syntax error.  For the template lexer (with non-empty
  delimiters) and for every expression grammar, whose last rule is the catch-all for one
  character, the matches moreover cover the source without a gap up to its end.  The
  liquid-line lexer has no catch-all rule and may skip characters, but it advances all
  the same.  The loop lexer is covered for every choice of the three imported patterns
  that cannot match the empty string.
\<close>

theorem tokenizers_advance:
  assumes "\<not> nullable (IDENTINDEX_PATTERN cm)" and "\<not> nullable (IDENTSTRING_PATTERN cm)"
    and "\<not> nullable (COMMON_IDENTIFIER_PATTERN cm)"
    and "tag_start \<noteq> [] \<or> tag_end \<noteq> []" and "stmt_start \<noteq> [] \<or> stmt_end \<noteq> []"
  shows "covering (compile_liquid_rules tag_start tag_end stmt_start stmt_end) source
    \<and> covering (p_compile_rules identifier_rules) source
    \<and> covering (p_compile_rules filtered_expression_rules) source
    \<and> covering (p_compile_rules assignment_expression_rules) source
    \<and> covering (p_compile_rules boolean_expression_rules) source
    \<and> covering (p_compile_rules loop_expression_rules) source
    \<and> covering (p_compile_rules include_expression_rules) source
    \<and> covering (OUTPUT_RE cm) source
    \<and> advancing LIQUID_EXPRESSION_RE source"
  by (intro conjI tiled_covering chained_advancing template_tiled [OF assms(4,5)]
      expression_tables_tiled loop_lexer_tiled [OF assms(1,2,3)] liquid_expression_chained)

theorem tokenizers_advance_witness:
  "\<not> nullable (IDENTINDEX_PATTERN spec_common) \<and> \<not> nullable (IDENTSTRING_PATTERN spec_common)
   \<and> \<not> nullable (COMMON_IDENTIFIER_PATTERN spec_common)
   \<and> ''{%'' \<noteq> [] \<and> ''{{'' \<noteq> []
   \<and> covering (compile_liquid_rules ''{%'' ''%}'' ''{{'' ''}}'') ''{{ x }}''
   \<and> covering (p_compile_rules boolean_expression_rules) ''{{ x }}''
   \<and> covering (OUTPUT_RE spec_common) ''{{ x }}''
   \<and> advancing LIQUID_EXPRESSION_RE ''{{ x }}''"
proof -
  have h1: "\<not> nullable (IDENTINDEX_PATTERN spec_common)"
    by (simp add: spec_common_def IDENTIFIER_PATTERN_def quantifier_defs)
  have h2: "\<not> nullable (IDENTSTRING_PATTERN spec_common)"
    by (simp add: spec_common_def IDENTIFIER_PATTERN_def quantifier_defs)
  have h3: "\<not> nullable (COMMON_IDENTIFIER_PATTERN spec_common)"
    by (simp add: spec_common_def IDENTIFIER_PATTERN_def quantifier_defs)
  have h4: "''{%'' \<noteq> [] \<or> ''%}'' \<noteq> []" and h5: "''{{'' \<noteq> [] \<or> ''}}'' \<noteq> []"
    by simp_all
  from tokenizers_advance [OF h1 h2 h3 h4 h5, of "''{{ x }}''"] h1 h2 h3 show ?thesis
    by simp
qed

section \<open>Errors of the boolean-expression lexer\<close>

lemma run_loop_error_origin:
  "snd (run_loop body st xs) = Some err \<Longrightarrow>
     \<exists>pre x post st'. xs = pre @ x # post \<and> loop_state body st pre = Some st' \<and>
       snd (body x st') = Inl err"
proof (induction xs arbitrary: st)
  case Nil
  then show ?case by simp
next
  case (Cons x xs)
  obtain toks r where b: "body x st = (toks, r)"
    by (cases "body x st")
  show ?case
  proof (cases r)
    case (Inl e)
    with Cons.prems b have "e = err"
      by simp
    with b Inl have "x # xs = [] @ x # xs \<and> loop_state body st [] = Some st \<and>
        snd (body x st) = Inl err"
      by simp
    then show ?thesis by blast
  next
    case (Inr st1)
    with Cons.prems b have "snd (run_loop body st1 xs) = Some err"
      by (simp split: prod.splits)
    from Cons.IH [OF this] obtain pre y post st' where
      a: "xs = pre @ y # post" "loop_state body st1 pre = Some st'" "snd (body y st') = Inl err"
      by blast
    from a b Inr have "x # xs = (x # pre) @ y # post \<and> loop_state body st (x # pre) = Some st' \<and>
        snd (body y st') = Inl err"
      by simp
    then show ?thesis by blast
  qed
qed

lemma illegal_kind_distinct:
  "TOKEN_ILLEGAL \<noteq> TOKEN_IDENTIFIER" "TOKEN_ILLEGAL \<noteq> TOKEN_STRING" "TOKEN_ILLEGAL \<noteq> ''OP''"
  "TOKEN_ILLEGAL \<noteq> ''NEWLINE''" "TOKEN_ILLEGAL \<noteq> ''SKIP''"
  by (simp_all add: token_defs)

lemma body_illegal:
  "m_lastgroup mt = Some TOKEN_ILLEGAL \<Longrightarrow>
     p_tokenize_body operators kws mt line_num =
       ([], Inl (LiquidSyntaxError (Unexpected (m_text mt)) line_num))"
  using illegal_kind_distinct by (simp add: p_tokenize_body_def Let_def)

lemma body_unknown_operator:
  assumes "snd (p_tokenize_body operators kws mt line_num) =
      Inl (LiquidSyntaxError (Unknown_operator v) n)"
  shows "m_lastgroup mt = Some ''OP'' \<and> v = m_text mt"
proof (cases "m_lastgroup mt")
  case None
  with assms show ?thesis
    by (simp add: p_tokenize_body_def)
next
  case (Some kind)
  show ?thesis
  proof (cases "kind = ''OP''")
    case True
    with assms Some show ?thesis
      by (auto simp: p_tokenize_body_def Let_def TOKEN_IDENTIFIER_def TOKEN_STRING_def
          split: if_splits option.splits)
  next
    case False
    with assms Some show ?thesis
      by (auto simp: p_tokenize_body_def Let_def split: if_splits)
  qed
qed




lemma named_match_shape:
  assumes "m (Alt (map (\<lambda>(name, pattern). named name pattern) rules)) (accept b (pos s)) (fresh s)
      = Some e"
  shows "\<exists>name pat. (name, pat) \<in> set rules \<and> m_lastgroup (mk_match s e) = Some name \<and>
      m pat (\<lambda>y. accept b (pos s) (close_group (Some name) (fresh s) y)) (fresh s) = Some e"
proof -
  from m_named_rules [OF assms] obtain name pat x where
    a: "(name, pat) \<in> set rules"
       "m pat (\<lambda>y. accept b (pos s) (close_group (Some name) (fresh s) y)) (fresh s) = Some e"
       "accept b (pos s) (close_group (Some name) (fresh s) x) = Some e"
    by blast
  from a(3) have "e = close_group (Some name) (fresh s) x"
    by (simp add: accept_def split: if_splits)
  then have "m_lastgroup (mk_match s e) = Some name"
    by (simp add: mk_match_def close_group_def)
  with a(1,2) show ?thesis
    by blast
qed

lemma accept_close_pos:
  "accept b p (close_group n st x) = Some e \<Longrightarrow> pos e = pos x"
  by (auto simp: accept_def close_group_def split: if_splits option.splits)

lemma op_match_text:
  assumes "m (Rep True 1 (Some 2) cs) (\<lambda>y. accept b p (close_group n (fresh s) y)) (fresh s)
      = Some e"
  shows "(length (m_text (mk_match s e)) = 1 \<or> length (m_text (mk_match s e)) = 2) \<and>
      (\<forall>c \<in> set (m_text (mk_match s e)). cs c)"
proof -
  from assms have "rep True cs 1 (Some 2) (\<lambda>y. accept b p (close_group n (fresh s) y)) (fresh s)
      = Some e"
    by simp
  from rep_span [OF this] obtain x where
    x: "ext (fresh s) x" "pos (fresh s) + 1 \<le> pos x" "pos x \<le> pos (fresh s) + 2"
       "\<forall>c \<in> set (take (pos x - pos (fresh s)) (rest (fresh s))). cs c"
       "accept b p (close_group n (fresh s) x) = Some e"
    by blast
  from accept_close_pos [OF x(5)] have pe: "pos e = pos x" .
  from x(1) have le: "pos x - pos s \<le> length (rest s)"
    by (simp add: ext_def fresh_def)
  have mtext: "m_text (mk_match s e) = take (pos x - pos s) (rest s)"
    by (simp add: mk_match_def pe)
  from x(2,3) have "pos x - pos s = 1 \<or> pos x - pos s = 2"
    by (auto simp: fresh_def)
  with le x(4) show ?thesis
    by (auto simp: mtext fresh_def)
qed

lemma illegal_match_text:
  assumes "m (Chr cs) (\<lambda>y. accept b p (close_group n (fresh s) y)) (fresh s) = Some e"
  shows "length (m_text (mk_match s e)) = 1"
proof -
  from assms obtain st1 where nc: "next_char cs (fresh s) = Some st1"
    and k: "accept b p (close_group n (fresh s) st1) = Some e"
    by (auto split: option.splits)
  from next_char_Some [OF nc] obtain c where "rest (fresh s) = c # rest st1"
    and "pos st1 = Suc (pos (fresh s))"
    by blast
  with accept_close_pos [OF k] show ?thesis
    by (simp add: mk_match_def fresh_def)
qed

lemma boolean_rule_OP:
  "(''OP'', pat) \<in> set boolean_expression_rules \<Longrightarrow> pat = Rep True 1 (Some 2) op_char"
  by (auto simp: boolean_expression_rules_def token_defs)

lemma boolean_rule_ILLEGAL:
  "(TOKEN_ILLEGAL, pat) \<in> set boolean_expression_rules \<Longrightarrow> pat = Chr any_char"
  by (auto simp: boolean_expression_rules_def token_defs)

lemma boolean_match_shapes:
  assumes "mt \<in> set (finditer (p_compile_rules boolean_expression_rules) source)"
  shows "(m_lastgroup mt = Some ''OP'' \<longrightarrow>
           (length (m_text mt) = 1 \<or> length (m_text mt) = 2) \<and>
           (\<forall>c \<in> set (m_text mt). op_char c)) \<and>
         (m_lastgroup mt = Some TOKEN_ILLEGAL \<longrightarrow> length (m_text mt) = 1)"
proof -
  let ?Q = "\<lambda>mt. (m_lastgroup mt = Some ''OP'' \<longrightarrow>
           (length (m_text mt) = 1 \<or> length (m_text mt) = 2) \<and>
           (\<forall>c \<in> set (m_text mt). op_char c)) \<and>
         (m_lastgroup mt = Some TOKEN_ILLEGAL \<longrightarrow> length (m_text mt) = 1)"
  from assms have mem: "mt \<in> set (finditer_from (p_compile_rules boolean_expression_rules) False
      (start_state source))"
    by (simp add: finditer_def)
  show ?thesis
  proof (rule finditer_from_all [OF mem, of ?Q])
    fix b s e
    assume "m (p_compile_rules boolean_expression_rules) (accept b (pos s)) (fresh s) = Some e"
    then have "m (Alt (map (\<lambda>(name, pattern). named name pattern) boolean_expression_rules))
        (accept b (pos s)) (fresh s) = Some e"
      by (simp add: p_compile_rules_def)
    from named_match_shape [OF this] obtain name pat where
      a: "(name, pat) \<in> set boolean_expression_rules"
         "m_lastgroup (mk_match s e) = Some name"
         "m pat (\<lambda>y. accept b (pos s) (close_group (Some name) (fresh s) y)) (fresh s) = Some e"
      by blast
    show "?Q (mk_match s e)"
    proof (rule conjI [OF impI impI])
      assume "m_lastgroup (mk_match s e) = Some ''OP''"
      with a have n: "name = ''OP''" by simp
      with a(1) have p: "pat = Rep True 1 (Some 2) op_char"
        by (intro boolean_rule_OP) simp
      from a(3) have "m (Rep True 1 (Some 2) op_char)
          (\<lambda>y. accept b (pos s) (close_group (Some ''OP'') (fresh s) y)) (fresh s) = Some e"
        unfolding n p .
      then show "(length (m_text (mk_match s e)) = 1 \<or> length (m_text (mk_match s e)) = 2) \<and>
          (\<forall>c \<in> set (m_text (mk_match s e)). op_char c)"
        by (rule op_match_text)
    next
      assume "m_lastgroup (mk_match s e) = Some TOKEN_ILLEGAL"
      with a have n: "name = TOKEN_ILLEGAL" by simp
      with a(1) have p: "pat = Chr any_char"
        by (intro boolean_rule_ILLEGAL) simp
      from a(3) have "m (Chr any_char)
          (\<lambda>y. accept b (pos s) (close_group (Some TOKEN_ILLEGAL) (fresh s) y)) (fresh s) = Some e"
        unfolding n p .
      then show "length (m_text (mk_match s e)) = 1"
        by (rule illegal_match_text)
    qed
  qed
qed





text \<open>
  C7.  In a boolean expression, when the scan reaches a match of the catch-all rule (the
  matches before it having raised nothing), the match is one character and the lexer
  raises the unexpected-character error for it at the current line, whatever the
  operator table holds: the table is not consulted.  An unknown-operator error is only
  ever raised for a span of one or two characters drawn from \<^verbatim>\<open>!=<>\<close>, the span of the
  operator group.  In particular \<^verbatim>\<open>a ~ b\<close> raises the unexpected-character error for
  \<^verbatim>\<open>~\<close>.
\<close>

theorem boolean_illegal_character:
  "(\<forall>pre mt post ln.
      finditer (p_compile_rules boolean_expression_rules) source = pre @ mt # post \<longrightarrow>
      m_lastgroup mt = Some TOKEN_ILLEGAL \<longrightarrow>
      loop_state (p_tokenize_body operators boolean_expression_keywords) 1 pre = Some ln \<longrightarrow>
      (\<exists>c. m_text mt = [c] \<and>
         tokenize_boolean_expression operators source =
           (fst (run_loop (p_tokenize_body operators boolean_expression_keywords) 1 pre),
            Some (LiquidSyntaxError (Unexpected [c]) ln))))
   \<and> (\<forall>toks v n.
      tokenize_boolean_expression operators source =
        (toks, Some (LiquidSyntaxError (Unknown_operator v) n)) \<longrightarrow>
      (length v = 1 \<or> length v = 2) \<and> (\<forall>c \<in> set v. c \<in> set ''!=<>''))
   \<and> tokenize_boolean_expression operators ''a ~ b'' =
       ([Token 1 TOKEN_IDENTIFIER ''a''], Some (LiquidSyntaxError (Unexpected ''~'') 1))"
proof (intro conjI allI impI)
  let ?body = "p_tokenize_body operators boolean_expression_keywords"
  let ?rx = "p_compile_rules boolean_expression_rules"
  have tok: "tokenize_boolean_expression operators source = run_loop ?body 1 (finditer ?rx source)"
    by (simp add: tokenize_boolean_expression_def p_tokenize_def)
  {
    fix pre mt post ln
    assume f: "finditer ?rx source = pre @ mt # post"
      and k: "m_lastgroup mt = Some TOKEN_ILLEGAL"
      and l: "loop_state ?body 1 pre = Some ln"
    from f have "mt \<in> set (finditer ?rx source)"
      by simp
    from boolean_match_shapes [OF this] k have "length (m_text mt) = 1"
      by simp
    then obtain c where c: "m_text mt = [c]"
      by (cases "m_text mt") auto
    from body_illegal [OF k, of operators boolean_expression_keywords ln]
    have "run_loop ?body ln (mt # post) =
        ([], Some (LiquidSyntaxError (Unexpected [c]) ln))"
      by (simp add: c)
    with run_loop_split [of ?body 1 pre "mt # post"] l f tok
    have "tokenize_boolean_expression operators source =
        (fst (run_loop ?body 1 pre), Some (LiquidSyntaxError (Unexpected [c]) ln))"
      by simp
    with c show "\<exists>c. m_text mt = [c] \<and>
         tokenize_boolean_expression operators source =
           (fst (run_loop ?body 1 pre), Some (LiquidSyntaxError (Unexpected [c]) ln))"
      by blast
  }
  {
    fix toks v n
    assume a: "tokenize_boolean_expression operators source =
        (toks, Some (LiquidSyntaxError (Unknown_operator v) n))"
    have "snd (run_loop ?body 1 (finditer ?rx source)) =
        Some (LiquidSyntaxError (Unknown_operator v) n)"
      unfolding tok [symmetric] a by simp
    from run_loop_error_origin [OF this] obtain pre x post st' where
      b: "finditer ?rx source = pre @ x # post"
         "snd (?body x st') = Inl (LiquidSyntaxError (Unknown_operator v) n)"
      by blast
    from body_unknown_operator [OF b(2)] have k: "m_lastgroup x = Some ''OP''" and v: "v = m_text x"
      by simp_all
    from b(1) have "x \<in> set (finditer ?rx source)"
      by simp
    from boolean_match_shapes [OF this] k v
    have r: "length v = 1 \<or> length v = 2" "\<forall>c \<in> set v. op_char c"
      by simp_all
    from r(1) show "length v = 1 \<or> length v = 2" .
    from r(2) show "\<forall>c \<in> set v. c \<in> set ''!=<>''"
      by (simp add: op_char_def)
  }
  show "tokenize_boolean_expression operators ''a ~ b'' =
       ([Token 1 TOKEN_IDENTIFIER ''a''], Some (LiquidSyntaxError (Unexpected ''~'') 1))"
    by code_simp
qed





theorem boolean_illegal_character_witness:
  "finditer (p_compile_rules boolean_expression_rules) ''a ~ b'' =
     [\<lparr>m_start = 0, m_end = 1, m_text = ''a'', m_groups = [(''identifier'', ''a'')],
        m_lastgroup = Some ''identifier''\<rparr>,
      \<lparr>m_start = 1, m_end = 2, m_text = '' '', m_groups = [(''SKIP'', '' '')],
        m_lastgroup = Some ''SKIP''\<rparr>] @
     \<lparr>m_start = 2, m_end = 3, m_text = ''~'', m_groups = [(''illegal'', ''~'')],
        m_lastgroup = Some ''illegal''\<rparr> #
     [\<lparr>m_start = 3, m_end = 4, m_text = '' '', m_groups = [(''SKIP'', '' '')],
        m_lastgroup = Some ''SKIP''\<rparr>,
      \<lparr>m_start = 4, m_end = 5, m_text = ''b'', m_groups = [(''identifier'', ''b'')],
        m_lastgroup = Some ''identifier''\<rparr>]
   \<and> m_lastgroup \<lparr>m_start = 2, m_end = 3, m_text = ''~'', m_groups = [(''illegal'', ''~'')],
        m_lastgroup = Some ''illegal''\<rparr> = Some TOKEN_ILLEGAL
   \<and> loop_state (p_tokenize_body Map.empty boolean_expression_keywords) 1
       [\<lparr>m_start = 0, m_end = 1, m_text = ''a'', m_groups = [(''identifier'', ''a'')],
        m_lastgroup = Some ''identifier''\<rparr>,
        \<lparr>m_start = 1, m_end = 2, m_text = '' '', m_groups = [(''SKIP'', '' '')],
        m_lastgroup = Some ''SKIP''\<rparr>] = Some 1
   \<and> tokenize_boolean_expression Map.empty ''a ~ b'' =
       ([Token 1 TOKEN_IDENTIFIER ''a''], Some (LiquidSyntaxError (Unexpected ''~'') 1))
   \<and> tokenize_boolean_expression Map.empty ''a =! b'' =
       ([Token 1 TOKEN_IDENTIFIER ''a''], Some (LiquidSyntaxError (Unknown_operator ''=!'') 1))
   \<and> (length ''=!'' = 1 \<or> length ''=!'' = 2) \<and> set ''=!'' \<subseteq> set ''!=<>''"
proof -
  let ?a = "\<lparr>m_start = 0, m_end = 1, m_text = ''a'', m_groups = [(''identifier'', ''a'')],
        m_lastgroup = Some ''identifier''\<rparr>"
  let ?sp = "\<lparr>m_start = 1, m_end = 2, m_text = '' '', m_groups = [(''SKIP'', '' '')],
        m_lastgroup = Some ''SKIP''\<rparr>"
  let ?t = "\<lparr>m_start = 2, m_end = 3, m_text = ''~'', m_groups = [(''illegal'', ''~'')],
        m_lastgroup = Some ''illegal''\<rparr>"
  let ?sp2 = "\<lparr>m_start = 3, m_end = 4, m_text = '' '', m_groups = [(''SKIP'', '' '')],
        m_lastgroup = Some ''SKIP''\<rparr>"
  let ?b = "\<lparr>m_start = 4, m_end = 5, m_text = ''b'', m_groups = [(''identifier'', ''b'')],
        m_lastgroup = Some ''identifier''\<rparr>"
  let ?body = "p_tokenize_body Map.empty boolean_expression_keywords"
  have f: "finditer (p_compile_rules boolean_expression_rules) ''a ~ b'' =
      [?a, ?sp] @ ?t # [?sp2, ?b]"
    by code_simp
  have k: "m_lastgroup ?t = Some TOKEN_ILLEGAL"
    by (simp add: TOKEN_ILLEGAL_def)
  have l: "loop_state ?body 1 [?a, ?sp] = Some 1"
    by code_simp
  have pre: "fst (run_loop ?body 1 [?a, ?sp]) = [Token 1 TOKEN_IDENTIFIER ''a'']"
    by code_simp
  note part1 = boolean_illegal_character [of "''a ~ b''" Map.empty, THEN conjunct1, rule_format,
      OF f k l]
  then obtain c where c: "m_text ?t = [c]"
    and r: "tokenize_boolean_expression Map.empty ''a ~ b'' =
      (fst (run_loop ?body 1 [?a, ?sp]), Some (LiquidSyntaxError (Unexpected [c]) 1))"
    by blast
  from c have "c = CHR ''~''"
    by simp
  with r pre have r1: "tokenize_boolean_expression Map.empty ''a ~ b'' =
       ([Token 1 TOKEN_IDENTIFIER ''a''], Some (LiquidSyntaxError (Unexpected ''~'') 1))"
    by (simp only:)
  have u: "tokenize_boolean_expression Map.empty ''a =! b'' =
       ([Token 1 TOKEN_IDENTIFIER ''a''], Some (LiquidSyntaxError (Unknown_operator ''=!'') 1))"
    by code_simp
  note part2 = boolean_illegal_character [of "''a =! b''" Map.empty, THEN conjunct2,
      THEN conjunct1, rule_format, OF u]
  from part2 have s1: "length ''=!'' = 1 \<or> length ''=!'' = 2"
    by (rule conjunct1)
  from part2 have "\<forall>c \<in> set ''=!''. c \<in> set ''!=<>''"
    by (rule conjunct2)
  then have s2: "set ''=!'' \<subseteq> set ''!=<>''"
    by (intro subsetI) (erule bspec)
  from f k l r1 u s1 s2 show ?thesis
    by (intro conjI)
qed

section \<open>A tag region with an empty name\<close>

text \<open>
  The tag rule is \<^verbatim>\<open>{%-?\s*(?P<name>\w*)\s*(?P<expr>.*?)\s*(?P<rst>-?)%}\<close>: the name of
  a match is empty when the first character after the opening delimiter, the optional
  \<^verbatim>\<open>-\<close> and the whitespace is not a word character.
\<close>

subsection \<open>Literals, repetitions and groups\<close>

lemma consume_fields:
  "pos (consume xs st) = pos st + length xs"
  "rest (consume xs st) = drop (length xs) (rest st)"
  "caps (consume xs st) = caps st"
  "lastg (consume xs st) = lastg st"
  by (induction xs arbitrary: st) (simp_all add: drop_Suc tl_drop)

lemma consume_eq:
  "rest st = xs @ tail \<Longrightarrow>
     consume xs st =
       st\<lparr>pos := pos st + length xs, rest := tail,
          prev := (if xs = [] then prev st else Some (last xs))\<rparr>"
proof (induction xs arbitrary: st)
  case Nil
  then show ?case by simp
next
  case (Cons c xs)
  let ?st1 = "st\<lparr>pos := Suc (pos st), rest := tl (rest st), prev := Some c\<rparr>"
  from Cons.prems have "rest ?st1 = xs @ tail"
    by simp
  from Cons.IH [OF this] show ?case
    by simp
qed

lemma consume_append: "consume (xs @ ys) st = consume ys (consume xs st)"
  by (induction xs arbitrary: st) simp_all

text \<open>A literal matches its own text.\<close>

lemma lit_consume:
  "rest st = s @ x \<Longrightarrow> lit s K st = K (consume s st)"
proof (induction s arbitrary: st)
  case Nil
  show ?case by simp
next
  case (Cons c s)
  let ?st1 = "st\<lparr>pos := Suc (pos st), rest := tl (rest st), prev := Some c\<rparr>"
  from Cons.prems have nc: "next_char (\<lambda>y. y = c) st = Some ?st1"
    by (simp add: next_char_def)
  from Cons.prems have "rest ?st1 = s @ x"
    by simp
  from Cons.IH [OF this] nc show ?case
    by simp
qed

lemma lit_head_mismatch:
  "(\<And>c cs. rest e = c # cs \<Longrightarrow> c \<noteq> a) \<Longrightarrow> lit (a # as) k e = None"
  by (cases "rest e") (auto simp: next_char_def)

lemma lit_caps:
  "lit s k st = Some res \<Longrightarrow> \<exists>e. k e = Some res \<and> caps e = caps st"
proof (induction s arbitrary: st)
  case Nil
  then show ?case by auto
next
  case (Cons c s)
  then obtain st1 where a: "next_char (\<lambda>x. x = c) st = Some st1" and b: "lit s k st1 = Some res"
    by (auto split: option.splits)
  from Cons.IH [OF b] next_char_Some(3) [OF a] show ?case
    by auto
qed

lemma rep_no_char:
  "next_char cs st = None \<Longrightarrow> rep g cs 0 hi K st = K st"
  by (simp add: rep.simps [of g cs 0 hi K st])

text \<open>Groups of other names keep their text through a match.\<close>

lemma m_caps:
  "m r k st = Some res \<Longrightarrow>
     \<exists>e. k e = Some res \<and> (\<forall>n. n \<notin> group_names r \<longrightarrow> map_of (caps e) n = map_of (caps st) n)"
proof (induction r k st arbitrary: res rule: m.induct)
  case (1 cs k st)
  then obtain st1 where a: "next_char cs st = Some st1" and b: "k st1 = Some res"
    by (auto split: option.splits)
  from next_char_Some(3) [OF a] b show ?case
    by auto
next
  case (2 s k st)
  then show ?case
    by (auto dest!: lit_caps)
next
  case (3 g lo hi cs k st)
  then have "rep g cs lo hi k st = Some res"
    by simp
  from rep_span [OF this] show ?case
    by auto
next
  case (4 k st)
  then show ?case
    by auto
next
  case (5 r rs k st)
  from "5.prems" have "m r (\<lambda>st1. m (Seq rs) k st1) st = Some res"
    by simp
  from "5.IH"(2) [OF this] obtain e1 where
    a: "m (Seq rs) k e1 = Some res"
       "\<forall>n. n \<notin> group_names r \<longrightarrow> map_of (caps e1) n = map_of (caps st) n"
    by blast
  from "5.IH"(1) [OF a(1)] obtain e where
    b: "k e = Some res"
       "\<forall>n. n \<notin> group_names (Seq rs) \<longrightarrow> map_of (caps e) n = map_of (caps e1) n"
    by blast
  from a(2) b show ?case
    by (intro exI [of _ e]) simp
next
  case (6 k st)
  then show ?case by simp
next
  case (7 r rs k st)
  show ?case
  proof (cases "m r k st")
    case None
    with "7.prems" have "m (Alt rs) k st = Some res"
      by simp
    from "7.IH"(2) [OF None this] show ?thesis
      by auto
  next
    case (Some a)
    with "7.prems" have "m r k st = Some res"
      by simp
    from "7.IH"(1) [OF this] show ?thesis
      by auto
  qed
next
  case (8 n r k st)
  from "8.prems" have "m r (\<lambda>e. k (close_group n st e)) st = Some res"
    by simp
  from "8.IH" [OF this] obtain e where
    a: "k (close_group n st e) = Some res"
       "\<forall>x. x \<notin> group_names r \<longrightarrow> map_of (caps e) x = map_of (caps st) x"
    by blast
  then show ?case
    by (intro exI [of _ "close_group n st e"])
       (auto simp: close_group_def split: option.splits)
next
  case (9 n k st)
  then show ?case
    by (auto split: option.splits dest!: lit_caps)
next
  case (10 r k st)
  from "10.prems" obtain e' where
    a: "m r Some st = Some e'" and b: "k (st\<lparr>caps := caps e', lastg := lastg e'\<rparr>) = Some res"
    by (auto split: option.splits)
  from "10.IH" [OF a] have "\<forall>n. n \<notin> group_names r \<longrightarrow> map_of (caps e') n = map_of (caps st) n"
    by auto
  with b show ?case
    by (intro exI [of _ "st\<lparr>caps := caps e', lastg := lastg e'\<rparr>"]) simp
next
  case (11 r k st)
  then show ?case
    by (auto split: option.splits)
next
  case (12 k st)
  then show ?case
    by (auto split: if_splits)
next
  case (13 k st)
  then show ?case
    by (auto split: if_splits)
qed

text \<open>A lazy repetition stops at the first place where the rest of the pattern matches,
  a greedy one takes every character of its class when the rest of the pattern matches
  after them.\<close>

lemma lazy_first:
  assumes "\<forall>c \<in> set u. cs c" and "rest st = u @ x"
    and "\<And>p s. u = p @ s \<Longrightarrow> s \<noteq> [] \<Longrightarrow> K (consume p st) = None"
    and "K (consume u st) = Some r"
  shows "rep False cs 0 None K st = Some r"
  using assms
proof (induction u arbitrary: st)
  case Nil
  then show ?case
    by (simp add: rep.simps [of False cs 0 None K st] split: option.splits)
next
  case (Cons c u)
  let ?st1 = "st\<lparr>pos := Suc (pos st), rest := tl (rest st), prev := Some c\<rparr>"
  from Cons.prems(1,2) have nc: "next_char cs st = Some ?st1"
    by (simp add: next_char_def)
  from Cons.prems(3) [of "[]" "c # u"] have k0: "K st = None"
    by simp
  have r1: "rest ?st1 = u @ x"
    using Cons.prems(2) by simp
  have none: "K (consume p ?st1) = None" if "u = p @ s" and "s \<noteq> []" for p s
    using Cons.prems(3) [of "c # p" s] that by simp
  from Cons.prems(1) have "\<forall>c \<in> set u. cs c"
    by simp
  from Cons.IH [OF this r1 none] Cons.prems(4)
  have "rep False cs 0 None K ?st1 = Some r"
    by simp
  with nc k0 show ?case
    by (simp add: rep.simps [of False cs 0 None K st] dec_def)
qed

subsection \<open>The literal rule stops at an opening tag delimiter\<close>

lemma lookahead_fails:
  assumes "rest e = c # y" and "c \<noteq> CHR ''{''" and "y \<noteq> []"
  shows "m (Seq [Ahead (Alt [Grp None (Seq [Grp None (Alt [Lit ''{%'', Lit ''{{'']),
                                      named ''rstrip'' (opt (is_chr CHR ''-''))]), Eos])]) k e = None"
  using assms by (simp add: next_char_def)

lemma lookahead_at_tag:
  assumes "rest e = ''{%'' @ x"
  shows "m (Seq [Ahead (Alt [Grp None (Seq [Grp None (Alt [Lit ''{%'', Lit ''{{'']),
                                      named ''rstrip'' (opt (is_chr CHR ''-''))]), Eos])]) k e =
     k (e\<lparr>caps := (''rstrip'', if startswith x ''-'' then ''-'' else []) # caps e, lastg := None\<rparr>)"
proof (cases x)
  case Nil
  with assms show ?thesis
    by (simp add: next_char_def rep.simps close_group_def quantifier_defs is_chr_def dec_def
        startswith_def)
next
  case (Cons c y)
  with assms show ?thesis
    by (cases "c = CHR ''-''")
       (simp_all add: next_char_def rep.simps close_group_def quantifier_defs is_chr_def dec_def
        startswith_def)
qed

lemma rule_needs_brace:
  assumes "rest st = c # y" and "c \<noteq> CHR ''{''"
  shows "m (named n (Seq (Lit (CHR ''{'' # s) # rs))) k st = None"
  using assms by (simp add: named_def next_char_def)

lemma literal_rule_stops:
  assumes "pre \<noteq> []" and "CHR ''{'' \<notin> set pre" and "rest st = pre @ ''{%'' @ x"
  shows "m (named TOKEN_LITERAL
       (Seq [lazy_plus any_char,
             Ahead (Alt [Grp None (Seq [Grp None (Alt [Lit ''{%'', Lit ''{{'']),
                                        named ''rstrip'' (opt (is_chr CHR ''-''))]), Eos])]))
       (accept b (pos st)) st =
     Some ((consume pre st)\<lparr>caps := (TOKEN_LITERAL, pre) #
              (''rstrip'', if startswith x ''-'' then ''-'' else []) # caps st,
            lastg := Some TOKEN_LITERAL\<rparr>)"
proof -
  let ?k = "\<lambda>e. accept b (pos st) (close_group (Some TOKEN_LITERAL) st e)"
  let ?K = "m (Seq [Ahead (Alt [Grp None (Seq [Grp None (Alt [Lit ''{%'', Lit ''{{'']),
                                      named ''rstrip'' (opt (is_chr CHR ''-''))]), Eos])]) ?k"
  let ?res = "(consume pre st)\<lparr>caps := (TOKEN_LITERAL, pre) #
              (''rstrip'', if startswith x ''-'' then ''-'' else []) # caps st,
            lastg := Some TOKEN_LITERAL\<rparr>"
  from assms(1) obtain c u where pre: "pre = c # u"
    by (cases pre) auto
  let ?st1 = "st\<lparr>pos := Suc (pos st), rest := tl (rest st), prev := Some c\<rparr>"
  have nc: "next_char any_char st = Some ?st1"
    using assms(3) pre by (simp add: next_char_def any_char_def)
  have r1: "rest ?st1 = u @ ''{%'' @ x"
    using assms(3) pre by simp
  have none: "?K (consume p ?st1) = None" if "u = p @ s" and "s \<noteq> []" for p s
  proof -
    from that obtain d s' where s: "s = d # s'"
      by (cases s) auto
    from r1 that have "rest ?st1 = p @ (s @ ''{%'' @ x)"
      by simp
    from consume_eq [OF this] s have "rest (consume p ?st1) = d # (s' @ ''{%'' @ x)"
      by simp
    moreover from assms(2) pre that s have "d \<noteq> CHR ''{''"
      by auto
    ultimately show ?thesis
      by (intro lookahead_fails [where c = d and y = "s' @ ''{%'' @ x"]) simp_all
  qed
  have full: "consume pre st = consume u ?st1"
    by (simp add: pre)
  have e: "rest (consume pre st) = ''{%'' @ x" "pos (consume pre st) = pos st + length pre"
    "caps (consume pre st) = caps st"
    using consume_eq [OF assms(3)] by (simp_all add: consume_fields)
  have take: "take (length pre) (rest st) = pre"
    using assms(3) by simp
  have "?K (consume pre st) = Some ?res"
    unfolding lookahead_at_tag [OF e(1)] using assms(1)
    by (simp add: accept_def close_group_def e take)
  then have ku: "?K (consume u ?st1) = Some ?res"
    by (simp only: full)
  have "rep False any_char 0 None ?K ?st1 = Some ?res"
  proof (rule lazy_first [where u = u and x = "''{%'' @ x"])
    show "\<forall>c \<in> set u. any_char c"
      by (simp add: any_char_def)
    show "rest ?st1 = u @ ''{%'' @ x"
      by (rule r1)
    show "?K (consume p ?st1) = None" if "u = p @ s" and "s \<noteq> []" for p s
      using that by (rule none)
    show "?K (consume u ?st1) = Some ?res"
      by (rule ku)
  qed
  moreover have "rep False any_char (Suc 0) None ?K st = rep False any_char 0 None ?K ?st1"
    by (subst rep.simps) (simp add: nc dec_def)
  ultimately have "rep False any_char (Suc 0) None ?K st = Some ?res"
    by (rule ssubst [where P = "\<lambda>v. v = Some ?res", rotated])
  then show ?thesis
    by (simp add: named_def lazy_plus_def del: consume.simps)
qed

lemma greedy_takes_all:
  assumes "\<forall>c \<in> set ws. cs c" and "rest st = ws @ tail"
    and "\<And>c t. tail = c # t \<Longrightarrow> \<not> cs c"
    and "K (consume ws st) = Some res"
  shows "rep True cs 0 None K st = Some res"
  using assms
proof (induction ws arbitrary: st)
  case Nil
  then have "next_char cs st = None"
    by (cases tail) (auto simp: next_char_def)
  with Nil show ?case
    by (simp add: rep.simps [of True cs 0 None K st])
next
  case (Cons c ws)
  let ?st1 = "st\<lparr>pos := Suc (pos st), rest := ws @ tail, prev := Some c\<rparr>"
  from Cons.prems have nc: "next_char cs st = Some ?st1"
    by (simp add: next_char_def)
  from Cons.prems(2,4) have k: "K (consume ws ?st1) = Some res"
    by simp
  from Cons.prems(1) have "\<forall>c \<in> set ws. cs c"
    by simp
  from Cons.IH [OF this _ Cons.prems(3) k] have "rep True cs 0 None K ?st1 = Some res"
    by simp
  with nc show ?case
    by (simp add: rep.simps [of True cs 0 None K st] dec_def)
qed

lemma space_not_special:
  "is_space c \<Longrightarrow> c \<noteq> CHR ''r'' \<and> c \<noteq> CHR ''-'' \<and> \<not> is_word c \<and> c \<noteq> CHR ''%'' \<and> c \<noteq> CHR ''{''"
  by (auto simp: is_space_def is_word_def is_ascii_word_def chr_in_def)

lemma percent_class:
  "\<not> is_space CHR ''%''" "\<not> is_word CHR ''%''"
  by (simp_all add: is_space_def is_word_def is_ascii_word_def chr_in_def)

lemma dash_class:
  "\<not> is_space CHR ''-''" "\<not> is_word CHR ''-''"
  by (simp_all add: is_space_def is_word_def is_ascii_word_def chr_in_def)

lemma r_is_word: "is_word CHR ''r''"
  by (simp add: is_word_def is_ascii_word_def chr_in_def)

lemma lazy_exists:
  assumes "\<forall>c \<in> set u. cs c" and "rest st = u @ x" and "K (consume u st) \<noteq> None"
  shows "rep False cs 0 None K st \<noteq> None"
  using assms
proof (induction u arbitrary: st)
  case Nil
  then show ?case
    by (auto simp: rep.simps [of False cs 0 None K st] split: option.splits)
next
  case (Cons c u)
  let ?st1 = "st\<lparr>pos := Suc (pos st), rest := tl (rest st), prev := Some c\<rparr>"
  from Cons.prems(1,2) have nc: "next_char cs st = Some ?st1"
    by (simp add: next_char_def)
  have r1: "rest ?st1 = u @ x"
    using Cons.prems(2) by simp
  from Cons.prems(1) have "\<forall>c \<in> set u. cs c"
    by simp
  from Cons.IH [OF this r1] Cons.prems(3)
  have "rep False cs 0 None K ?st1 \<noteq> None"
    by simp
  with nc show ?case
    by (auto simp: rep.simps [of False cs 0 None K st] dec_def split: option.splits)
qed

lemma span_stops:
  assumes "\<forall>x \<in> set (take k (p @ c # t)). P x" and "\<not> P c"
  shows "k \<le> length p"
proof (rule ccontr)
  assume "\<not> k \<le> length p"
  then have "c \<in> set (take k (p @ c # t))"
    by (simp add: take_Cons')
  with assms show False
    by blast
qed

text \<open>The closing part of the tag rule at a closing delimiter.\<close>

lemma tag_close:
  assumes "rest e = ''%}'' @ v"
  shows "m (Seq [star is_space, named ''rst'' (opt (is_chr CHR ''-'')), Lit ''%}'']) k e =
     k (e\<lparr>caps := (''rst'', []) # caps e, lastg := Some ''rst'',
          pos := Suc (Suc (pos e)), rest := v, prev := Some CHR ''}''\<rparr>)"
  using assms
  by (simp add: quantifier_defs rep.simps next_char_def percent_class is_chr_def close_group_def)

subsection \<open>The tag rule at a region whose name is empty\<close>

lemma tag_after_name:
  assumes "rest s = c # t" and "\<not> is_word c" and "\<not> is_space c"
    and "c # t = u @ ''%}'' @ v"
    and "\<And>e. pos s < pos e \<Longrightarrow> k e \<noteq> None"
  shows "m (Seq [named ''name'' (star is_word), star is_space,
             named ''expr'' (lazy_star any_char), star is_space,
             named ''rst'' (opt (is_chr CHR ''-'')), Lit ''%}'']) k s \<noteq> None"
proof -
  let ?s5 = "s\<lparr>caps := (''name'', []) # caps s, lastg := Some ''name''\<rparr>"
  let ?K = "\<lambda>e. m (Seq [star is_space, named ''rst'' (opt (is_chr CHR ''-'')), Lit ''%}'']) k
      (close_group (Some ''expr'') ?s5 e)"
  have r5: "rest ?s5 = u @ ''%}'' @ v"
    using assms(1,4) by simp
  have "rest (close_group (Some ''expr'') ?s5 (consume u ?s5)) = ''%}'' @ v"
    using consume_eq [OF r5] by (simp add: close_group_def)
  from tag_close [OF this] have "?K (consume u ?s5) \<noteq> None"
    by (simp add: assms(5) close_group_def consume_fields)
  with r5 have "rep False any_char 0 None ?K ?s5 \<noteq> None"
    by (intro lazy_exists [where u = u and x = "''%}'' @ v"]) (simp_all add: any_char_def)
  moreover have "next_char is_word s = None" "next_char is_space ?s5 = None"
    using assms(1-3) by (simp_all add: next_char_def)
  ultimately show ?thesis
    by (simp add: quantifier_defs rep_no_char close_group_def)
qed

lemma opt_dash:
  assumes "rest s = d @ y" and "d = [] \<or> d = ''-''" and "d = [] \<longrightarrow> \<not> startswith y ''-''"
  shows "rep True (is_chr CHR ''-'') 0 (Some 1) K s =
     (case K (consume d s) of Some e \<Rightarrow> Some e | None \<Rightarrow> K s)"
proof (cases "d = []")
  case True
  with assms have "next_char (is_chr CHR ''-'') s = None"
    by (cases y) (auto simp: next_char_def is_chr_def startswith_def)
  with True show ?thesis
    by (simp add: rep_no_char split: option.splits)
next
  case False
  with assms have d: "d = ''-''"
    by simp
  let ?s1 = "s\<lparr>pos := Suc (pos s), rest := tl (rest s), prev := Some CHR ''-''\<rparr>"
  have nc: "next_char (is_chr CHR ''-'') s = Some ?s1"
    using assms(1) d by (simp add: next_char_def is_chr_def)
  have "rep True (is_chr CHR ''-'') 0 (Some 0) K ?s1 = K ?s1"
    by (simp add: rep.simps [of True _ 0 "Some 0" K ?s1])
  with nc show ?thesis
    by (simp add: rep.simps [of True _ 0 "Some (Suc 0)" K s] dec_def d)
qed

text \<open>The tag rule matches at a region whose name is empty.\<close>

lemma tag_rule_exists:
  assumes "rest st = ''{%'' @ d @ ws @ c # t"
    and "d = [] \<or> d = ''-''" and "\<forall>x \<in> set ws. is_space x"
    and "\<not> is_space c" and "\<not> is_word c"
    and "d = [] \<longrightarrow> ws = [] \<longrightarrow> c \<noteq> CHR ''-''"
    and "c # t = u @ ''%}'' @ v"
  shows "m (named ''TAG''
       (Seq [Lit ''{%'', opt (is_chr CHR ''-''), star is_space,
             named ''name'' (star is_word), star is_space,
             named ''expr'' (lazy_star any_char), star is_space,
             named ''rst'' (opt (is_chr CHR ''-'')), Lit ''%}'']))
       (accept b (pos st)) st \<noteq> None"
proof -
  let ?k = "\<lambda>e. accept b (pos st) (close_group (Some ''TAG'') st e)"
  let ?K2 = "m (Seq [named ''name'' (star is_word), star is_space,
             named ''expr'' (lazy_star any_char), star is_space,
             named ''rst'' (opt (is_chr CHR ''-'')), Lit ''%}'']) ?k"
  let ?K1 = "m (Seq [star is_space,
             named ''name'' (star is_word), star is_space,
             named ''expr'' (lazy_star any_char), star is_space,
             named ''rst'' (opt (is_chr CHR ''-'')), Lit ''%}'']) ?k"
  let ?K0 = "m (Seq [opt (is_chr CHR ''-''), star is_space,
             named ''name'' (star is_word), star is_space,
             named ''expr'' (lazy_star any_char), star is_space,
             named ''rst'' (opt (is_chr CHR ''-'')), Lit ''%}'']) ?k"
  define s2 where "s2 = consume ''{%'' st"
  define s3 where "s3 = consume d s2"
  define s4 where "s4 = consume ws s3"
  have r2: "rest s2 = d @ (ws @ c # t)"
    unfolding s2_def using consume_eq [OF assms(1)] by simp
  have r3: "rest s3 = ws @ (c # t)"
    unfolding s3_def using consume_eq [OF r2] by simp
  have r4: "rest s4 = c # t"
    unfolding s4_def using consume_eq [OF r3] by simp
  have p4: "pos st < pos s4"
    by (simp add: s4_def s3_def s2_def consume_fields)
  have k: "?k e \<noteq> None" if "pos s4 < pos e" for e
    using that p4 by (simp add: accept_def close_group_def)
  have "?K2 s4 \<noteq> None"
    by (rule tag_after_name [OF r4 assms(5,4,7)]) (rule k)
  then obtain res where k2: "?K2 s4 = Some res"
    by auto
  have "rep True is_space 0 None ?K2 s3 = Some res"
  proof (rule greedy_takes_all [where ws = ws and tail = "c # t"])
    show "\<forall>c \<in> set ws. is_space c"
      by (rule assms(3))
    show "rest s3 = ws @ c # t"
      by (rule r3)
    show "\<not> is_space c'" if "c # t = c' # t'" for c' t'
      using that assms(4) by simp
    show "?K2 (consume ws s3) = Some res"
      using k2 by (simp only: s4_def)
  qed
  then have k1: "?K1 (consume d s2) = Some res"
    by (simp add: star_def s3_def)
  have "d = [] \<longrightarrow> \<not> startswith (ws @ c # t) ''-''"
    using assms(3,6) by (cases ws) (auto simp: startswith_def dest: space_not_special)
  from opt_dash [OF r2 assms(2) this, of ?K1] k1
  have "rep True (is_chr CHR ''-'') 0 (Some 1) ?K1 s2 = Some res"
    by simp
  then have "?K0 s2 = Some res"
    by (simp add: opt_def)
  moreover have "lit ''{%'' ?K0 st = ?K0 s2"
    unfolding s2_def by (rule lit_consume [OF assms(1)])
  ultimately have "lit ''{%'' ?K0 st = Some res"
    by simp
  then show ?thesis
    by (simp add: named_def)
qed

text \<open>The raw rule and the statement rule do not match at such a region, and every match
  of the tag rule there has the empty name.\<close>

lemma after_spaces:
  assumes "\<forall>x \<in> set p. is_space x" and "\<not> is_space c"
    and "\<forall>x \<in> set (take n (p @ c # t)). is_space x"
  shows "\<exists>h r. drop n (p @ c # t) = h # r \<and> (h = c \<or> is_space h)"
proof -
  from span_stops [OF assms(3,2)] have n: "n \<le> length p" .
  show ?thesis
  proof (cases "drop n p")
    case Nil
    with n show ?thesis
      by simp
  next
    case (Cons h r)
    then have "h \<in> set p"
      by (metis in_set_dropD list.set_intros(1))
    with assms(1) Cons n show ?thesis
      by simp
  qed
qed

lemma raw_rule_fails:
  assumes "rest st = ''{%'' @ d @ ws @ c # t"
    and "d = [] \<or> d = ''-''" and "\<forall>x \<in> set ws. is_space x"
    and "\<not> is_space c" and "\<not> is_word c"
  shows "m (named ''RAW'' (Seq (Lit ''{%'' # star is_space # Lit ''raw'' # tl_rs))) k st = None"
proof (rule ccontr)
  let ?k = "\<lambda>e. k (close_group (Some ''RAW'') st e)"
  let ?K2 = "m (Seq (Lit ''raw'' # tl_rs)) ?k"
  let ?K1 = "m (Seq (star is_space # Lit ''raw'' # tl_rs)) ?k"
  define s2 where "s2 = consume ''{%'' st"
  have r2: "rest s2 = d @ ws @ c # t"
    unfolding s2_def using consume_eq [OF assms(1)] by simp
  assume "m (named ''RAW'' (Seq (Lit ''{%'' # star is_space # Lit ''raw'' # tl_rs))) k st \<noteq> None"
  then obtain res where "lit ''{%'' ?K1 st = Some res"
    by (auto simp: named_def)
  then have "?K1 s2 = Some res"
    by (simp only: lit_consume [OF assms(1)] s2_def)
  then have "rep True is_space 0 None ?K2 s2 = Some res"
    by (simp add: star_def)
  from rep_span [OF this] obtain e where
    e: "ext s2 e" "\<forall>x \<in> set (take (pos e - pos s2) (rest s2)). is_space x" "?K2 e = Some res"
    by blast
  define n where "n = pos e - pos s2"
  from assms(2) obtain p c' t' where
    y: "d @ ws @ c # t = p @ c' # t'" "\<forall>x \<in> set p. is_space x" "\<not> is_space c'" "\<not> is_word c'"
  proof
    assume "d = []"
    with assms(3-5) show ?thesis
      by (intro that [of ws c t]) simp_all
  next
    assume "d = ''-''"
    then show ?thesis
      by (intro that [of "[]" "CHR ''-''" "ws @ c # t"]) (simp_all add: dash_class)
  qed
  from e(1) have re: "rest e = drop n (p @ c' # t')"
    by (simp add: ext_def n_def r2 y(1) del: drop_append)
  from e(2) have "\<forall>x \<in> set (take n (p @ c' # t')). is_space x"
    by (simp add: n_def r2 y(1) del: take_append)
  from after_spaces [OF y(2,3) this] re obtain h r where
    h: "rest e = h # r" "h = c' \<or> is_space h"
    by auto
  with y(4) have "h \<noteq> CHR ''r''"
    using r_is_word by (auto dest: space_not_special)
  with h(1) have "lit ''raw'' (m (Seq tl_rs) ?k) e = None"
    by (intro lit_head_mismatch) simp
  with e(3) show False
    by simp
qed

lemma statement_rule_fails:
  assumes "rest st = ''{%'' @ y"
  shows "m (named TOKEN_STATEMENT (Seq (Lit ''{{'' # tl_rs))) k st = None"
  using assms by (simp add: named_def next_char_def)

lemma tag_rule_name_empty:
  assumes "rest st = ''{%'' @ d @ ws @ c # t"
    and "d = [] \<or> d = ''-''" and "\<forall>x \<in> set ws. is_space x"
    and "\<not> is_space c" and "\<not> is_word c"
    and "d = [] \<longrightarrow> ws = [] \<longrightarrow> c \<noteq> CHR ''-''"
    and "m (named ''TAG''
       (Seq [Lit ''{%'', opt (is_chr CHR ''-''), star is_space,
             named ''name'' (star is_word), star is_space,
             named ''expr'' (lazy_star any_char), star is_space,
             named ''rst'' (opt (is_chr CHR ''-'')), Lit ''%}'']))
       (accept b p) st = Some res"
  shows "lastg res = Some ''TAG'' \<and> map_of (caps res) ''name'' = Some []"
proof -
  let ?k = "\<lambda>e. accept b p (close_group (Some ''TAG'') st e)"
  let ?K3 = "m (Seq [star is_space,
             named ''expr'' (lazy_star any_char), star is_space,
             named ''rst'' (opt (is_chr CHR ''-'')), Lit ''%}'']) ?k"
  let ?K2 = "m (Seq [named ''name'' (star is_word), star is_space,
             named ''expr'' (lazy_star any_char), star is_space,
             named ''rst'' (opt (is_chr CHR ''-'')), Lit ''%}'']) ?k"
  let ?K1 = "m (Seq [star is_space,
             named ''name'' (star is_word), star is_space,
             named ''expr'' (lazy_star any_char), star is_space,
             named ''rst'' (opt (is_chr CHR ''-'')), Lit ''%}'']) ?k"
  let ?K0 = "m (Seq [opt (is_chr CHR ''-''), star is_space,
             named ''name'' (star is_word), star is_space,
             named ''expr'' (lazy_star any_char), star is_space,
             named ''rst'' (opt (is_chr CHR ''-'')), Lit ''%}'']) ?k"
  define s2 where "s2 = consume ''{%'' st"
  have r2: "rest s2 = d @ ws @ c # t"
    unfolding s2_def using consume_eq [OF assms(1)] by simp
  from assms(7) have "lit ''{%'' ?K0 st = Some res"
    by (simp add: named_def)
  then have "?K0 s2 = Some res"
    by (simp only: lit_consume [OF assms(1)] s2_def)
  then have "rep True (is_chr CHR ''-'') 0 (Some 1) ?K1 s2 = Some res"
    by (simp add: opt_def)
  from rep_span [OF this] obtain e1 where
    e1: "ext s2 e1" "pos e1 \<le> pos s2 + 1"
        "\<forall>x \<in> set (take (pos e1 - pos s2) (rest s2)). is_chr CHR ''-'' x"
        "?K1 e1 = Some res"
    by auto
  from e1(4) have "rep True is_space 0 None ?K2 e1 = Some res"
    by (simp add: star_def)
  from rep_span [OF this] obtain e2 where
    e2: "ext e1 e2" "\<forall>x \<in> set (take (pos e2 - pos e1) (rest e1)). is_space x"
        "?K2 e2 = Some res"
    by blast
  define n where "n = pos e2 - pos e1"
  from e2(1) have re2: "rest e2 = drop n (rest e1)"
    by (simp add: ext_def n_def)
  have "\<exists>p c' t'. rest e1 = p @ c' # t' \<and> (\<forall>x \<in> set p. is_space x) \<and> \<not> is_space c' \<and>
      \<not> is_word c'"
  proof (cases "pos e1 = pos s2")
    case True
    with e1(1) have same: "rest e1 = d @ ws @ c # t"
      by (simp add: ext_def r2)
    from assms(2) show ?thesis
    proof
      assume "d = []"
      with same assms(3-5) show ?thesis
        by (intro exI [of _ ws] exI [of _ c] exI [of _ t]) simp
    next
      assume "d = ''-''"
      with same show ?thesis
        by (intro exI [of _ "[]"] exI [of _ "CHR ''-''"] exI [of _ "ws @ c # t"])
           (simp add: dash_class)
    qed
  next
    case False
    with e1(1,2) have one: "pos e1 - pos s2 = Suc 0"
      by (auto simp: ext_def)
    have "d = ''-''"
    proof (rule ccontr)
      assume "d \<noteq> ''-''"
      with assms(2) have d: "d = []"
        by simp
      from e1(3) have "hd (ws @ c # t) = CHR ''-''"
        unfolding one r2 d by (cases ws) (simp_all add: is_chr_def)
      with assms(3,6) d show False
        by (cases ws) (auto dest: space_not_special)
    qed
    with e1(1) one have "rest e1 = ws @ c # t"
      by (simp add: ext_def r2)
    with assms(3-5) show ?thesis
      by (intro exI [of _ ws] exI [of _ c] exI [of _ t]) simp
  qed
  then obtain p c' t' where
    y: "rest e1 = p @ c' # t'" "\<forall>x \<in> set p. is_space x" "\<not> is_space c'" "\<not> is_word c'"
    by blast
  from e2(2) have "\<forall>x \<in> set (take n (p @ c' # t')). is_space x"
    by (simp add: n_def y(1) del: take_append)
  from after_spaces [OF y(2,3) this] re2 y(1) obtain h r where
    h: "rest e2 = h # r" "h = c' \<or> is_space h"
    by auto
  with y(4) have "\<not> is_word h"
    by (auto dest: space_not_special)
  with h(1) have nw: "next_char is_word e2 = None"
    by (simp add: next_char_def)
  let ?s5 = "e2\<lparr>caps := (''name'', []) # caps e2, lastg := Some ''name''\<rparr>"
  from e2(3) nw have "?K3 ?s5 = Some res"
    by (simp add: named_def star_def rep_no_char close_group_def)
  from m_caps [OF this] obtain e where
    e: "?k e = Some res"
       "\<forall>n. n \<notin> group_names (Seq [star is_space,
             named ''expr'' (lazy_star any_char), star is_space,
             named ''rst'' (opt (is_chr CHR ''-'')), Lit ''%}'']) \<longrightarrow>
          map_of (caps e) n = map_of (caps ?s5) n"
    by blast
  have "''name'' \<notin> group_names (Seq [star is_space,
             named ''expr'' (lazy_star any_char), star is_space,
             named ''rst'' (opt (is_chr CHR ''-'')), Lit ''%}''])"
    by (simp add: quantifier_defs)
  with e(2) have "map_of (caps e) ''name'' = Some []"
    by simp
  moreover from e(1) have "res = close_group (Some ''TAG'') st e"
    by (simp add: accept_def split: if_splits)
  ultimately show ?thesis
    by (simp add: close_group_def)
qed

subsection \<open>The scan at a region whose name is empty\<close>

lemma default_rules_unfold:
  "m (compile_liquid_rules ''{%'' ''%}'' ''{{'' ''}}'') k st =
     (case m (named ''RAW''
          (Seq (Lit ''{%'' # star is_space # Lit ''raw'' #
               [star is_space, Lit ''%}'', named ''raw'' (lazy_star any_char),
                Lit ''{%'', star is_space, Lit ''endraw'', star is_space, Lit ''%}'']))) k st of
        Some e \<Rightarrow> Some e
      | None \<Rightarrow>
     (case m (named TOKEN_STATEMENT
          (Seq (Lit ''{{'' #
               [opt (is_chr CHR ''-''), star is_space,
                named ''stmt'' (lazy_star any_char), star is_space,
                named ''rss'' (opt (is_chr CHR ''-'')), Lit ''}}'']))) k st of
        Some e \<Rightarrow> Some e
      | None \<Rightarrow>
     (case m (named ''TAG''
          (Seq [Lit ''{%'', opt (is_chr CHR ''-''), star is_space,
                named ''name'' (star is_word), star is_space,
                named ''expr'' (lazy_star any_char), star is_space,
                named ''rst'' (opt (is_chr CHR ''-'')), Lit ''%}''])) k st of
        Some e \<Rightarrow> Some e
      | None \<Rightarrow>
        m (named TOKEN_LITERAL
          (Seq [lazy_plus any_char,
                Ahead (Alt [Grp None (Seq [Grp None (Alt [Lit ''{%'', Lit ''{{'']),
                                           named ''rstrip'' (opt (is_chr CHR ''-''))]),
                            Eos])])) k st)))"
  unfolding compile_liquid_rules_def p_compile_rules_def liquid_rules_def Let_def
  by (simp only: list.map prod.case m.simps(6,7) split: option.splits) simp

lemma empty_name_region_found:
  assumes "rest st = ''{%'' @ d @ ws @ c # t"
    and "d = [] \<or> d = ''-''" and "\<forall>x \<in> set ws. is_space x"
    and "\<not> is_space c" and "\<not> is_word c"
    and "d = [] \<longrightarrow> ws = [] \<longrightarrow> c \<noteq> CHR ''-''"
    and "c # t = u @ ''%}'' @ v"
  shows "\<exists>e. search (compile_liquid_rules ''{%'' ''%}'' ''{{'' ''}}'') b st = Some (st, e) \<and>
     pos st < pos e \<and> lastg e = Some ''TAG'' \<and> map_of (caps e) ''name'' = Some []"
proof -
  let ?rx = "compile_liquid_rules ''{%'' ''%}'' ''{{'' ''}}''"
  have r: "rest (fresh st) = ''{%'' @ d @ ws @ c # t"
    using assms(1) by (simp add: fresh_def)
  have p: "pos (fresh st) = pos st"
    by (simp add: fresh_def)
  from tag_rule_exists [OF r assms(2-7), of b] obtain e where
    e: "m (named ''TAG''
          (Seq [Lit ''{%'', opt (is_chr CHR ''-''), star is_space,
                named ''name'' (star is_word), star is_space,
                named ''expr'' (lazy_star any_char), star is_space,
                named ''rst'' (opt (is_chr CHR ''-'')), Lit ''%}''])) (accept b (pos st)) (fresh st)
        = Some e"
    by (auto simp: p)
  have "m ?rx (accept b (pos st)) (fresh st) = Some e"
    by (simp only: default_rules_unfold raw_rule_fails [OF r assms(2-5)]
        statement_rule_fails [OF r] e option.case)
  then have s: "search ?rx b st = Some (st, e)"
    by (rule search_at_start)
  from search_ext [OF s] have "ext st e"
    by simp
  moreover have "\<not> nullable ?rx"
    by (simp add: compile_liquid_rules_def p_compile_rules_def liquid_rules_def Let_def
        quantifier_defs)
  ultimately have "pos st < pos e"
    using m_ext [OF \<open>m ?rx (accept b (pos st)) (fresh st) = Some e\<close>]
    by (auto simp: accept_def fresh_def ext_def split: if_splits)
  with s tag_rule_name_empty [OF r assms(2-6) e] show ?thesis
    by blast
qed

lemma plain_text_found:
  assumes "pre \<noteq> []" and "CHR ''{'' \<notin> set pre" and "rest st = pre @ ''{%'' @ x"
  shows "search (compile_liquid_rules ''{%'' ''%}'' ''{{'' ''}}'') b st =
     Some (st, (consume pre (fresh st))\<lparr>caps :=
         [(TOKEN_LITERAL, pre), (''rstrip'', if startswith x ''-'' then ''-'' else [])],
       lastg := Some TOKEN_LITERAL\<rparr>)"
proof -
  from assms(1) obtain c y where pre: "pre = c # y"
    by (cases pre) auto
  with assms(2,3) have r: "rest (fresh st) = c # (y @ ''{%'' @ x)" and c: "c \<noteq> CHR ''{''"
    by (auto simp: fresh_def)
  have r': "rest (fresh st) = pre @ ''{%'' @ x"
    using assms(3) by (simp add: fresh_def)
  have p: "pos st = pos (fresh st)" and cp: "caps (fresh st) = []"
    by (simp_all add: fresh_def)
  show ?thesis
    by (rule search_at_start)
       (simp only: default_rules_unfold rule_needs_brace [OF r c] option.case
          literal_rule_stops [OF assms(1,2) r', of b, folded p] cp)
qed

text \<open>A region that holds nothing but whitespace: the match of the tag rule is known
  in full.\<close>

lemma blank_tag_rule_matches:
  assumes "\<forall>x \<in> set ws. is_space x" and "rest st = ''{%'' @ ws @ ''%}'' @ v"
  shows "\<exists>e. m (named ''TAG''
       (Seq [Lit ''{%'', opt (is_chr CHR ''-''), star is_space,
             named ''name'' (star is_word), star is_space,
             named ''expr'' (lazy_star any_char), star is_space,
             named ''rst'' (opt (is_chr CHR ''-'')), Lit ''%}'']))
       (accept b (pos st)) st = Some e \<and>
     pos e = pos st + length (''{%'' @ ws @ ''%}'') \<and> rest e = v \<and> prev e = Some CHR ''}'' \<and>
     caps e = (''TAG'', ''{%'' @ ws @ ''%}'') # (''rst'', []) # (''expr'', []) # (''name'', []) #
               caps st \<and>
     lastg e = Some ''TAG''"
proof -
  let ?k = "\<lambda>e. accept b (pos st) (close_group (Some ''TAG'') st e)"
  let ?K2 = "m (Seq [named ''name'' (star is_word), star is_space,
             named ''expr'' (lazy_star any_char), star is_space,
             named ''rst'' (opt (is_chr CHR ''-'')), Lit ''%}'']) ?k"
  let ?K1 = "m (Seq [star is_space,
             named ''name'' (star is_word), star is_space,
             named ''expr'' (lazy_star any_char), star is_space,
             named ''rst'' (opt (is_chr CHR ''-'')), Lit ''%}'']) ?k"
  let ?K0 = "m (Seq [opt (is_chr CHR ''-''), star is_space,
             named ''name'' (star is_word), star is_space,
             named ''expr'' (lazy_star any_char), star is_space,
             named ''rst'' (opt (is_chr CHR ''-'')), Lit ''%}'']) ?k"
  let ?P = "\<lambda>e. pos e = pos st + length (''{%'' @ ws @ ''%}'') \<and> rest e = v \<and>
     prev e = Some CHR ''}'' \<and>
     caps e = (''TAG'', ''{%'' @ ws @ ''%}'') # (''rst'', []) # (''expr'', []) # (''name'', []) #
               caps st \<and>
     lastg e = Some ''TAG''"
  define s2 where "s2 = consume ''{%'' st"
  define s4 where "s4 = consume ws s2"
  have r2: "rest s2 = [] @ ws @ ''%}'' @ v"
    unfolding s2_def using consume_eq [OF assms(2)] by simp
  then have r2': "rest s2 = ws @ ''%}'' @ v"
    by simp
  have s4: "s4 = st\<lparr>pos := pos st + 2 + length ws, rest := ''%}'' @ v,
      prev := Some (last (''{%'' @ ws))\<rparr>"
    unfolding s4_def s2_def consume_append [symmetric]
    using consume_eq [of st "''{%'' @ ws" "''%}'' @ v"] assms(2) by simp
  have g: "take (length xs) (xs @ ys) = xs" for xs ys :: string
    by simp
  have tk: "take (4 + length ws) (rest st) = ''{%'' @ ws @ ''%}''"
  proof -
    have "4 + length ws = length (''{%'' @ ws @ ''%}'')"
      by simp
    moreover have "rest st = (''{%'' @ ws @ ''%}'') @ v"
      using assms(2) by simp
    ultimately show ?thesis
      by (simp only: g)
  qed
  have "\<exists>e. ?K2 s4 = Some e \<and> ?P e"
    unfolding s4
    by (simp add: named_def star_def opt_def lazy_star_def rep.simps next_char_def
        percent_class is_chr_def any_char_def close_group_def accept_def dec_def tk)
  then obtain e where e: "?K2 s4 = Some e" "?P e"
    by blast
  have "rep True is_space 0 None ?K2 s2 = Some e"
  proof (rule greedy_takes_all [where ws = ws and tail = "''%}'' @ v"])
    show "\<forall>c \<in> set ws. is_space c"
      by (rule assms(1))
    show "rest s2 = ws @ ''%}'' @ v"
      by (rule r2')
    show "\<not> is_space c" if "''%}'' @ v = c # t" for c t
      using that by (auto simp: percent_class)
    show "?K2 (consume ws s2) = Some e"
      using e(1) by (simp only: s4_def)
  qed
  then have k1: "?K1 (consume [] s2) = Some e"
    by (simp add: star_def)
  have "[] = [] \<longrightarrow> \<not> startswith (ws @ ''%}'' @ v) ''-''"
    using assms(1) by (cases ws) (auto simp: startswith_def dest: space_not_special)
  from opt_dash [OF r2 _ this, of ?K1] k1
  have "rep True (is_chr CHR ''-'') 0 (Some 1) ?K1 s2 = Some e"
    by simp
  then have "?K0 s2 = Some e"
    by (simp add: opt_def)
  moreover have "lit ''{%'' ?K0 st = ?K0 s2"
    unfolding s2_def by (rule lit_consume [OF assms(2)])
  ultimately have "lit ''{%'' ?K0 st = Some e"
    by simp
  then have "m (named ''TAG''
       (Seq [Lit ''{%'', opt (is_chr CHR ''-''), star is_space,
             named ''name'' (star is_word), star is_space,
             named ''expr'' (lazy_star any_char), star is_space,
             named ''rst'' (opt (is_chr CHR ''-'')), Lit ''%}'']))
       (accept b (pos st)) st = Some e"
    by (simp add: named_def)
  with e(2) show ?thesis
    by blast
qed

lemma blank_tag_found:
  assumes "\<forall>x \<in> set ws. is_space x" and "rest st = ''{%'' @ ws @ ''%}'' @ v"
  shows "\<exists>e. search (compile_liquid_rules ''{%'' ''%}'' ''{{'' ''}}'') b st = Some (st, e) \<and>
     pos e = pos st + length (''{%'' @ ws @ ''%}'') \<and> rest e = v \<and> prev e = Some CHR ''}'' \<and>
     caps e = [(''TAG'', ''{%'' @ ws @ ''%}''), (''rst'', []), (''expr'', []), (''name'', [])] \<and>
     lastg e = Some ''TAG''"
proof -
  let ?rx = "compile_liquid_rules ''{%'' ''%}'' ''{{'' ''}}''"
  have r: "rest (fresh st) = ''{%'' @ ws @ ''%}'' @ v"
    using assms(2) by (simp add: fresh_def)
  then have r': "rest (fresh st) = ''{%'' @ [] @ ws @ CHR ''%'' # (CHR ''}'' # v)"
    by simp
  have p: "pos (fresh st) = pos st" "caps (fresh st) = []"
    by (simp_all add: fresh_def)
  from blank_tag_rule_matches [OF assms(1) r, of b] obtain e where
    e: "m (named ''TAG''
          (Seq [Lit ''{%'', opt (is_chr CHR ''-''), star is_space,
                named ''name'' (star is_word), star is_space,
                named ''expr'' (lazy_star any_char), star is_space,
                named ''rst'' (opt (is_chr CHR ''-'')), Lit ''%}''])) (accept b (pos st)) (fresh st)
        = Some e"
      "pos e = pos st + length (''{%'' @ ws @ ''%}'')" "rest e = v" "prev e = Some CHR ''}''"
      "caps e = [(''TAG'', ''{%'' @ ws @ ''%}''), (''rst'', []), (''expr'', []), (''name'', [])]"
      "lastg e = Some ''TAG''"
    unfolding p by blast
  have "m ?rx (accept b (pos st)) (fresh st) = Some e"
    by (simp only: default_rules_unfold
        raw_rule_fails [OF r' _ assms(1) percent_class] statement_rule_fails [OF r] e(1)
        option.case simp_thms)
  then have "search ?rx b st = Some (st, e)"
    by (rule search_at_start)
  with e show ?thesis
    by blast
qed

subsection \<open>The tokens of the template\<close>

lemma no_brace_start:
  "CHR ''{'' \<notin> set v \<Longrightarrow> \<not> startswith v (CHR ''{'' # s)"
  by (cases v) (auto simp: startswith_def)

lemma rstrip_subset: "set (str_rstrip s) \<subseteq> set s"
  using set_dropWhileD [of _ is_space "rev s"] by (auto simp: str_rstrip_def)

lemma run_loop_Cons:
  "body x st = (toks, Inr st') \<Longrightarrow>
     run_loop body st (x # xs) = (toks @ fst (run_loop body st' xs), snd (run_loop body st' xs))"
  by (simp add: case_prod_unfold)

text \<open>Text without an opening brace before a tag region: the scan gives it as one literal
  match and stands at the region afterwards.\<close>

lemma lexer_after_plain_text:
  assumes "CHR ''{'' \<notin> set pre"
  shows "default_lexer (pre @ ''{%'' @ x) =
     ((if (if startswith x ''-'' then str_rstrip pre else pre) = [] then []
       else [Token 1 TOKEN_LITERAL (if startswith x ''-'' then str_rstrip pre else pre)]) @
      fst (run_loop p_tokenize_template_body
             \<lparr>line_count = 1 + count_newlines pre, lstrip = False\<rparr>
             (finditer_from (compile_liquid_rules ''{%'' ''%}'' ''{{'' ''}}'') False
                (consume pre (start_state (pre @ ''{%'' @ x))))),
      snd (run_loop p_tokenize_template_body
             \<lparr>line_count = 1 + count_newlines pre, lstrip = False\<rparr>
             (finditer_from (compile_liquid_rules ''{%'' ''%}'' ''{{'' ''}}'') False
                (consume pre (start_state (pre @ ''{%'' @ x))))))"
proof (cases "pre = []")
  case True
  then show ?thesis
    by (simp add: default_lexer_def get_lexer_def p_tokenize_template_def finditer_def
        count_newlines_def str_rstrip_def)
next
  case False
  define src where "src = pre @ ''{%'' @ x"
  let ?rx = "compile_liquid_rules ''{%'' ''%}'' ''{{'' ''}}''"
  let ?st0 = "start_state src"
  define v where "v = (if startswith x ''-'' then str_rstrip pre else pre)"
  define e1 where "e1 = (consume pre (fresh ?st0))\<lparr>caps :=
         [(TOKEN_LITERAL, pre), (''rstrip'', if startswith x ''-'' then ''-'' else [])],
       lastg := Some TOKEN_LITERAL\<rparr>"
  define ms where "ms = finditer_from ?rx False (consume pre ?st0)"
  have r0: "rest ?st0 = pre @ ''{%'' @ x"
    by (simp add: start_state_def src_def)
  from plain_text_found [OF False assms r0, of False]
  have s: "search ?rx False ?st0 = Some (?st0, e1)"
    by (simp only: e1_def)
  have f0: "fresh ?st0 = ?st0"
    by (simp add: fresh_def start_state_def)
  have p1: "pos e1 = length pre" "pos ?st0 = 0"
    by (simp_all add: e1_def consume_fields start_state_def fresh_def)
  have fe: "fresh e1 = consume pre ?st0"
    unfolding e1_def f0 using consume_eq [OF r0]
    by (simp add: fresh_def start_state_def)
  have fi: "finditer ?rx src = mk_match ?st0 e1 # ms"
    unfolding finditer_def ms_def
    by (subst finditer_from.simps) (simp add: s fe p1 False)
  let ?mt = "mk_match ?st0 e1"
  have mt: "m_lastgroup ?mt = Some TOKEN_LITERAL" "m_text ?mt = pre"
    "group_text ?mt ''rstrip'' = (if startswith x ''-'' then ''-'' else [])"
    by (simp_all add: mk_match_def e1_def consume_fields fresh_def start_state_def src_def
        group_text_def group_def TOKEN_LITERAL_def)
  have tr: "trimmed ?mt \<lparr>line_count = n, lstrip = False\<rparr> = v" for n
    by (simp add: trimmed_def mt v_def)
  have "set v \<subseteq> set pre"
    using rstrip_subset [of pre] by (simp add: v_def)
  with assms have "CHR ''{'' \<notin> set v"
    by auto
  then have ns: "\<not> startswith v ''{{''" "\<not> startswith v ''{%''"
    by (simp_all add: no_brace_start)
  have b: "p_tokenize_template_body ?mt \<lparr>line_count = 1, lstrip = False\<rparr> =
      (if v = [] then [] else [Token 1 TOKEN_LITERAL v],
       Inr \<lparr>line_count = 1 + count_newlines pre, lstrip = False\<rparr>)"
    unfolding body_literal [OF mt(1)] tr mt(2) using ns by simp
  show ?thesis
    unfolding default_lexer_def get_lexer_def p_tokenize_template_def
      src_def [symmetric] fi
      run_loop_Cons [where body = p_tokenize_template_body and x = ?mt
        and st = "\<lparr>line_count = 1, lstrip = False\<rparr>", OF b] v_def [symmetric] ms_def [symmetric]
    by (rule refl)
qed

lemma empty_name_region_step:
  assumes "rest st = ''{%'' @ d @ ws @ c # t"
    and "d = [] \<or> d = ''-''" and "\<forall>x \<in> set ws. is_space x"
    and "\<not> is_space c" and "\<not> is_word c"
    and "d = [] \<longrightarrow> ws = [] \<longrightarrow> c \<noteq> CHR ''-''"
    and "c # t = u @ ''%}'' @ v"
  shows "\<exists>e. search (compile_liquid_rules ''{%'' ''%}'' ''{{'' ''}}'') b st = Some (st, e) \<and>
     finditer_from (compile_liquid_rules ''{%'' ''%}'' ''{{'' ''}}'') b st =
       mk_match st e #
       finditer_from (compile_liquid_rules ''{%'' ''%}'' ''{{'' ''}}'') False (fresh e) \<and>
     m_lastgroup (mk_match st e) = Some ''TAG'' \<and> group_text (mk_match st e) ''name'' = []"
proof -
  let ?rx = "compile_liquid_rules ''{%'' ''%}'' ''{{'' ''}}''"
  from empty_name_region_found [OF assms, of b] obtain e where
    e: "search ?rx b st = Some (st, e)" "pos st < pos e" "lastg e = Some ''TAG''"
       "map_of (caps e) ''name'' = Some []"
    by blast
  have "finditer_from ?rx b st = mk_match st e # finditer_from ?rx False (fresh e)"
    by (subst finditer_from.simps) (use e(1,2) in simp)
  with e show ?thesis
    by (intro exI [of _ e]) (simp add: mk_match_def group_text_def group_def)
qed

lemma reached_tag_tokens:
  assumes "finditer rules source = ms @ mt # ms'"
    and "loop_state p_tokenize_template_body \<lparr>line_count = 1, lstrip = False\<rparr> ms = Some ts"
    and "m_lastgroup mt = Some ''TAG''"
  shows "p_tokenize_template source rules =
     (case run_loop p_tokenize_template_body
             \<lparr>line_count = line_count ts + count_newlines (m_text mt),
              lstrip = (group_text mt ''rst'' \<noteq> [])\<rparr> ms' of
        (toks, err) \<Rightarrow>
          (fst (run_loop p_tokenize_template_body \<lparr>line_count = 1, lstrip = False\<rparr> ms) @
           Token (line_count ts) TOKEN_TAG (group_text mt ''name'') #
           (if group_text mt ''expr'' = [] then []
            else [Token (line_count ts) TOKEN_EXPRESSION (group_text mt ''expr'')]) @ toks,
           err))"
  unfolding p_tokenize_template_def assms(1) run_loop_split assms(2) option.case
    run_loop_Cons [where body = p_tokenize_template_body and x = mt and st = ts,
      OF body_tag [OF assms(3)]]
  by (simp add: case_prod_unfold)

lemma plain_text_then_tag:
  assumes "CHR ''{'' \<notin> set pre"
    and "finditer_from default_rules False (consume pre (start_state (pre @ ''{%'' @ x))) = mt # ms"
    and "m_lastgroup mt = Some ''TAG''"
  shows "default_lexer (pre @ ''{%'' @ x) =
     (case run_loop p_tokenize_template_body
             \<lparr>line_count = 1 + count_newlines pre + count_newlines (m_text mt),
              lstrip = (group_text mt ''rst'' \<noteq> [])\<rparr> ms of
        (toks, err) \<Rightarrow>
          ((if (if startswith x ''-'' then str_rstrip pre else pre) = [] then []
            else [Token 1 TOKEN_LITERAL (if startswith x ''-'' then str_rstrip pre else pre)]) @
           Token (1 + count_newlines pre) TOKEN_TAG (group_text mt ''name'') #
           (if group_text mt ''expr'' = [] then []
            else [Token (1 + count_newlines pre) TOKEN_EXPRESSION (group_text mt ''expr'')]) @ toks,
           err))"
  unfolding lexer_after_plain_text [OF assms(1)] default_rules_def [symmetric] assms(2)
    run_loop_Cons [where body = p_tokenize_template_body and x = mt
      and st = "\<lparr>line_count = 1 + count_newlines pre, lstrip = False\<rparr>",
      OF body_tag [OF assms(3)]]
  by (simp add: case_prod_unfold)

lemma blank_tag_step:
  assumes "\<forall>x \<in> set ws. is_space x" and "rest st = ''{%'' @ ws @ ''%}'' @ v"
    and "caps st = []" and "lastg st = None"
  shows "\<exists>mt. finditer_from default_rules b st =
       mt # finditer_from default_rules False (consume (''{%'' @ ws @ ''%}'') st) \<and>
     m_lastgroup mt = Some ''TAG'' \<and> group_text mt ''name'' = [] \<and>
     group_text mt ''expr'' = [] \<and> group_text mt ''rst'' = [] \<and>
     m_text mt = ''{%'' @ ws @ ''%}''"
proof -
  from blank_tag_found [OF assms(1,2), of b] obtain e where
    e: "search default_rules b st = Some (st, e)"
      "pos e = pos st + length (''{%'' @ ws @ ''%}'')" "rest e = v" "prev e = Some CHR ''}''"
      "caps e = [(''TAG'', ''{%'' @ ws @ ''%}''), (''rst'', []), (''expr'', []), (''name'', [])]"
      "lastg e = Some ''TAG''"
    unfolding default_rules_def by blast
  have r: "rest st = (''{%'' @ ws @ ''%}'') @ v"
    using assms(2) by simp
  have fe: "fresh e = consume (''{%'' @ ws @ ''%}'') st"
    unfolding consume_eq [OF r]
    by (rule mstate.equality) (simp_all add: fresh_def e assms(3,4))
  have ne: "pos e \<noteq> pos st"
    using e(2) by simp
  have fi: "finditer_from default_rules b st =
      mk_match st e # finditer_from default_rules False (consume (''{%'' @ ws @ ''%}'') st)"
    by (subst finditer_from.simps) (simp only: e(1) option.case prod.case ne fe)
  have g: "take (length xs) (xs @ ys) = xs" for xs ys :: string
    by simp
  have "pos e - pos st = length (''{%'' @ ws @ ''%}'')"
    using e(2) by simp
  then have tx: "m_text (mk_match st e) = ''{%'' @ ws @ ''%}''"
    by (simp only: mk_match_def rmatch.simps r g)
  have "m_lastgroup (mk_match st e) = Some ''TAG''" "group_text (mk_match st e) ''name'' = []"
    "group_text (mk_match st e) ''expr'' = []" "group_text (mk_match st e) ''rst'' = []"
    by (simp_all add: mk_match_def e group_text_def group_def)
  with fi tx show ?thesis
    by blast
qed

lemma region_step:
  assumes "d = [] \<or> d = ''-''" and "\<forall>x \<in> set ws. is_space x" and "\<not> is_space c"
    and "\<not> is_word c" and "d = [] \<longrightarrow> ws = [] \<longrightarrow> c \<noteq> CHR ''-''" and "c # t = u @ ''%}'' @ v"
    and "rest s = ''{%'' @ d @ ws @ c # t"
  shows "\<exists>mt ms. finditer_from default_rules b s = mt # ms \<and> m_start mt = pos s \<and>
        m_lastgroup mt = Some ''TAG'' \<and> group_text mt ''name'' = []"
proof -
  from empty_name_region_step [OF assms(7,1-6), of b] obtain e where
    e: "finditer_from default_rules b s = mk_match s e # finditer_from default_rules False (fresh e)"
      "m_lastgroup (mk_match s e) = Some ''TAG''" "group_text (mk_match s e) ''name'' = []"
    unfolding default_rules_def by blast
  have "m_start (mk_match s e) = pos s"
    by (simp add: mk_match_def)
  with e show ?thesis
    by blast
qed

lemma region_after_plain_text:
  assumes "d = [] \<or> d = ''-''" and "\<forall>x \<in> set ws. is_space x" and "\<not> is_space c"
    and "\<not> is_word c" and "d = [] \<longrightarrow> ws = [] \<longrightarrow> c \<noteq> CHR ''-''" and "c # t = u @ ''%}'' @ v"
    and "CHR ''{'' \<notin> set pre"
  shows "\<exists>mt ms.
     finditer_from default_rules False
       (consume pre (start_state (pre @ ''{%'' @ d @ ws @ c # t))) = mt # ms \<and>
     default_lexer (pre @ ''{%'' @ d @ ws @ c # t) =
       (case run_loop p_tokenize_template_body
               \<lparr>line_count = 1 + count_newlines pre + count_newlines (m_text mt),
                lstrip = (group_text mt ''rst'' \<noteq> [])\<rparr> ms of
          (toks, err) \<Rightarrow>
            ((if (if d = [] then pre else str_rstrip pre) = [] then []
              else [Token 1 TOKEN_LITERAL (if d = [] then pre else str_rstrip pre)]) @
             Token (1 + count_newlines pre) TOKEN_TAG [] #
             (if group_text mt ''expr'' = [] then []
              else [Token (1 + count_newlines pre) TOKEN_EXPRESSION (group_text mt ''expr'')]) @
             toks,
             err))"
proof -
  define x where "x = d @ ws @ c # t"
  define s where "s = consume pre (start_state (pre @ ''{%'' @ x))"
  have "rest (start_state (pre @ ''{%'' @ x)) = pre @ ''{%'' @ x"
    by (simp add: start_state_def)
  from consume_eq [OF this] have "rest s = ''{%'' @ d @ ws @ c # t"
    by (simp add: s_def x_def)
  from region_step [OF assms(1-6) this, of False] obtain mt ms where
    m3: "finditer_from default_rules False s = mt # ms"
      "m_lastgroup mt = Some ''TAG''" "group_text mt ''name'' = []"
    by blast
  have sw: "startswith x ''-'' = (d \<noteq> [])"
  proof (cases "d = []")
    case True
    with assms(2,5) show ?thesis
      unfolding x_def by (cases ws) (auto simp: startswith_def dest: space_not_special)
  next
    case False
    with assms(1) show ?thesis
      by (simp add: x_def startswith_def)
  qed
  have v: "(if startswith x ''-'' then str_rstrip pre else pre) =
      (if d = [] then pre else str_rstrip pre)"
    by (simp add: sw)
  note plain_text_then_tag [OF assms(7) m3(1) [unfolded s_def] m3(2), unfolded v m3(3)]
  with m3(1) show ?thesis
    unfolding s_def x_def by (intro exI [of _ mt] exI [of _ ms] conjI)
qed

lemma blank_region_after_plain_text:
  assumes "CHR ''{'' \<notin> set pre" and "\<forall>x \<in> set ws. is_space x"
  shows "default_lexer (pre @ ''{%'' @ ws @ ''%}'' @ post) =
     (case run_loop p_tokenize_template_body
             \<lparr>line_count = 1 + count_newlines pre + count_newlines ws, lstrip = False\<rparr>
             (finditer_from default_rules False
                (consume (pre @ ''{%'' @ ws @ ''%}'')
                   (start_state (pre @ ''{%'' @ ws @ ''%}'' @ post)))) of
        (toks, err) \<Rightarrow>
          ((if pre = [] then [] else [Token 1 TOKEN_LITERAL pre]) @
           Token (1 + count_newlines pre) TOKEN_TAG [] # toks,
           err))"
proof -
  define x where "x = ws @ ''%}'' @ post"
  define s where "s = consume pre (start_state (pre @ ''{%'' @ x))"
  define r where "r = ''{%'' @ ws @ ''%}''"
  have "rest (start_state (pre @ ''{%'' @ x)) = pre @ ''{%'' @ x"
    by (simp add: start_state_def)
  from consume_eq [OF this] have rs: "rest s = ''{%'' @ ws @ ''%}'' @ post"
    by (simp add: s_def x_def)
  have cs: "caps s = []" "lastg s = None"
    by (simp_all add: s_def consume_fields start_state_def)
  from blank_tag_step [OF assms(2) rs cs, of False] obtain mt where
    mt: "finditer_from default_rules False s =
          mt # finditer_from default_rules False (consume r s)"
      "m_lastgroup mt = Some ''TAG''" "group_text mt ''name'' = []"
      "group_text mt ''expr'' = []" "group_text mt ''rst'' = []" "m_text mt = r"
    unfolding r_def by blast
  have sw: "startswith x ''-'' = False"
    using assms(2) unfolding x_def
    by (cases ws) (auto simp: startswith_def dest: space_not_special)
  have cn: "count_newlines r = count_newlines ws"
    by (simp add: r_def count_newlines_def nl_def)
  have src: "pre @ ''{%'' @ ws @ ''%}'' @ post = pre @ ''{%'' @ x"
    by (simp add: x_def)
  have "pre @ ''{%'' @ ws @ ''%}'' = pre @ r"
    by (simp add: r_def)
  then have cr: "consume (pre @ ''{%'' @ ws @ ''%}'') (start_state (pre @ ''{%'' @ x)) = consume r s"
    unfolding s_def by (simp only: consume_append)
  have "default_lexer (pre @ ''{%'' @ x) =
     (case run_loop p_tokenize_template_body
             \<lparr>line_count = 1 + count_newlines pre + count_newlines ws, lstrip = False\<rparr>
             (finditer_from default_rules False (consume r s)) of
        (toks, err) \<Rightarrow>
          ((if pre = [] then [] else [Token 1 TOKEN_LITERAL pre]) @
           Token (1 + count_newlines pre) TOKEN_TAG [] # toks,
           err))"
    unfolding plain_text_then_tag [OF assms(1) mt(1) [unfolded s_def] mt(2)] sw mt(3-6) cn
    by (simp add: case_prod_unfold s_def)
  then show ?thesis
    unfolding src cr .
qed

lemma region_tokens:
  assumes "d = [] \<or> d = ''-''" and "\<forall>x \<in> set ws. is_space x" and "\<not> is_space c"
    and "\<not> is_word c" and "d = [] \<longrightarrow> ws = [] \<longrightarrow> c \<noteq> CHR ''-''" and "c # t = u @ ''%}'' @ v"
    and "rest st = ''{%'' @ d @ ws @ c # t"
  shows "\<exists>mt ms. finditer_from default_rules b st = mt # ms \<and> m_start mt = pos st \<and>
     m_lastgroup mt = Some ''TAG'' \<and> group_text mt ''name'' = [] \<and>
     fst (p_tokenize_template_body mt ts) =
       Token (line_count ts) TOKEN_TAG [] #
       (if group_text mt ''expr'' = [] then []
        else [Token (line_count ts) TOKEN_EXPRESSION (group_text mt ''expr'')])"
proof -
  from region_step [OF assms, of b] obtain mt ms where
    m2: "finditer_from default_rules b st = mt # ms" "m_start mt = pos st"
      "m_lastgroup mt = Some ''TAG''" "group_text mt ''name'' = []"
    by blast
  from m2(3,4) have "fst (p_tokenize_template_body mt ts) =
       Token (line_count ts) TOKEN_TAG [] #
       (if group_text mt ''expr'' = [] then []
        else [Token (line_count ts) TOKEN_EXPRESSION (group_text mt ''expr'')])"
    by (simp add: body_tag)
  with m2 show ?thesis
    by blast
qed

text \<open>
  C2, as amended.  A tag region whose name is empty, when the scan reaches it, gives a tag
  token with empty value, followed by an expression token exactly when the remainder of
  the region is not empty, and no literal token.

  \<^item> For any rules and any source: when the scan yields a tag match with the empty name and
    no match before it makes the lexer raise, the tokens of the template are the tokens of
    the matches before it, then the tag token with empty value, then the expression token
    when the remainder is not empty, then the tokens of the matches after it; an error can
    only come from the matches after it.
  \<^item> Under the default delimiters, take text that reads \<^verbatim>\<open>{%\<close>, an optional \<^verbatim>\<open>-\<close>,
    whitespace \<open>ws\<close>, then a character \<open>c\<close> that is neither whitespace nor a word character,
    with \<^verbatim>\<open>%}\<close> somewhere from \<open>c\<close> on.  Wherever the scan stands at such text, its next
    match starts there, is a tag match and has the empty name, and the loop body yields
    for it the tag token with empty value and the expression token when the remainder is
    not empty.  When the text follows leading text \<open>pre\<close> without an opening brace, the
    template gives the literal \<open>pre\<close> (right-trimmed when the region opens with \<^verbatim>\<open>{%-\<close>,
    and left out when nothing remains of it), then these tokens, then the tokens of the
    rest of the scan.
  \<^item> When the region holds nothing but whitespace, as in \<^verbatim>\<open>{%  %}\<close>, also with text
    \<open>lead\<close> without an opening brace before it and any text \<open>post\<close> after it: the template
    gives the literal \<open>lead\<close> when it is not empty, then the tag token with empty value and
    no expression token, then the tokens of the scan of \<open>post\<close>.
  \<^item> The tag kind and the expression kind are not the literal kind.
\<close>

theorem empty_tag_name:
  "(finditer rules source = ms @ mt # ms' \<longrightarrow>
    loop_state p_tokenize_template_body \<lparr>line_count = 1, lstrip = False\<rparr> ms = Some ts \<longrightarrow>
    m_lastgroup mt = Some ''TAG'' \<longrightarrow> group_text mt ''name'' = [] \<longrightarrow>
      p_tokenize_template source rules =
        (case run_loop p_tokenize_template_body
                \<lparr>line_count = line_count ts + count_newlines (m_text mt),
                 lstrip = (group_text mt ''rst'' \<noteq> [])\<rparr> ms' of
           (toks, err) \<Rightarrow>
             (fst (run_loop p_tokenize_template_body \<lparr>line_count = 1, lstrip = False\<rparr> ms) @
              Token (line_count ts) TOKEN_TAG [] #
              (if group_text mt ''expr'' = [] then []
               else [Token (line_count ts) TOKEN_EXPRESSION (group_text mt ''expr'')]) @ toks,
              err)))
   \<and> ((d = [] \<or> d = ''-'') \<longrightarrow> (\<forall>x \<in> set ws. is_space x) \<longrightarrow>
       \<not> is_space c \<longrightarrow> \<not> is_word c \<longrightarrow> (d = [] \<longrightarrow> ws = [] \<longrightarrow> c \<noteq> CHR ''-'') \<longrightarrow>
       c # t = u @ ''%}'' @ v \<longrightarrow>
        (rest st = ''{%'' @ d @ ws @ c # t \<longrightarrow>
          (\<exists>mt2 ms2. finditer_from default_rules b st = mt2 # ms2 \<and> m_start mt2 = pos st \<and>
             m_lastgroup mt2 = Some ''TAG'' \<and> group_text mt2 ''name'' = [] \<and>
             fst (p_tokenize_template_body mt2 ts2) =
               Token (line_count ts2) TOKEN_TAG [] #
               (if group_text mt2 ''expr'' = [] then []
                else [Token (line_count ts2) TOKEN_EXPRESSION (group_text mt2 ''expr'')])))
      \<and> (CHR ''{'' \<notin> set pre \<longrightarrow>
          (\<exists>mt3 ms3.
             finditer_from default_rules False
               (consume pre (start_state (pre @ ''{%'' @ d @ ws @ c # t))) = mt3 # ms3 \<and>
             default_lexer (pre @ ''{%'' @ d @ ws @ c # t) =
               (case run_loop p_tokenize_template_body
                       \<lparr>line_count = 1 + count_newlines pre + count_newlines (m_text mt3),
                        lstrip = (group_text mt3 ''rst'' \<noteq> [])\<rparr> ms3 of
                  (toks, err) \<Rightarrow>
                    ((if (if d = [] then pre else str_rstrip pre) = [] then []
                      else [Token 1 TOKEN_LITERAL (if d = [] then pre else str_rstrip pre)]) @
                     Token (1 + count_newlines pre) TOKEN_TAG [] #
                     (if group_text mt3 ''expr'' = [] then []
                      else [Token (1 + count_newlines pre) TOKEN_EXPRESSION
                              (group_text mt3 ''expr'')]) @
                     toks,
                     err)))))
   \<and> (CHR ''{'' \<notin> set lead \<longrightarrow> (\<forall>x \<in> set blanks. is_space x) \<longrightarrow>
        default_lexer (lead @ ''{%'' @ blanks @ ''%}'' @ post) =
          (case run_loop p_tokenize_template_body
                  \<lparr>line_count = 1 + count_newlines lead + count_newlines blanks, lstrip = False\<rparr>
                  (finditer_from default_rules False
                     (consume (lead @ ''{%'' @ blanks @ ''%}'')
                        (start_state (lead @ ''{%'' @ blanks @ ''%}'' @ post)))) of
             (toks, err) \<Rightarrow>
               ((if lead = [] then [] else [Token 1 TOKEN_LITERAL lead]) @
                Token (1 + count_newlines lead) TOKEN_TAG [] # toks,
                err)))
   \<and> TOKEN_TAG \<noteq> TOKEN_LITERAL \<and> TOKEN_EXPRESSION \<noteq> TOKEN_LITERAL"
proof (rule conjI [OF _ conjI [OF _ conjI [OF _ conjI]]])
  show "finditer rules source = ms @ mt # ms' \<longrightarrow>
    loop_state p_tokenize_template_body \<lparr>line_count = 1, lstrip = False\<rparr> ms = Some ts \<longrightarrow>
    m_lastgroup mt = Some ''TAG'' \<longrightarrow> group_text mt ''name'' = [] \<longrightarrow>
      p_tokenize_template source rules =
        (case run_loop p_tokenize_template_body
                \<lparr>line_count = line_count ts + count_newlines (m_text mt),
                 lstrip = (group_text mt ''rst'' \<noteq> [])\<rparr> ms' of
           (toks, err) \<Rightarrow>
             (fst (run_loop p_tokenize_template_body \<lparr>line_count = 1, lstrip = False\<rparr> ms) @
              Token (line_count ts) TOKEN_TAG [] #
              (if group_text mt ''expr'' = [] then []
               else [Token (line_count ts) TOKEN_EXPRESSION (group_text mt ''expr'')]) @ toks,
              err))"
  proof (intro impI)
    assume a: "finditer rules source = ms @ mt # ms'"
      "loop_state p_tokenize_template_body \<lparr>line_count = 1, lstrip = False\<rparr> ms = Some ts"
      "m_lastgroup mt = Some ''TAG''" "group_text mt ''name'' = []"
    show "p_tokenize_template source rules =
        (case run_loop p_tokenize_template_body
                \<lparr>line_count = line_count ts + count_newlines (m_text mt),
                 lstrip = (group_text mt ''rst'' \<noteq> [])\<rparr> ms' of
           (toks, err) \<Rightarrow>
             (fst (run_loop p_tokenize_template_body \<lparr>line_count = 1, lstrip = False\<rparr> ms) @
              Token (line_count ts) TOKEN_TAG [] #
              (if group_text mt ''expr'' = [] then []
               else [Token (line_count ts) TOKEN_EXPRESSION (group_text mt ''expr'')]) @ toks,
              err))"
      using reached_tag_tokens [OF a(1-3)] unfolding a(4) .
  qed
next
  show "(d = [] \<or> d = ''-'') \<longrightarrow> (\<forall>x \<in> set ws. is_space x) \<longrightarrow>
       \<not> is_space c \<longrightarrow> \<not> is_word c \<longrightarrow> (d = [] \<longrightarrow> ws = [] \<longrightarrow> c \<noteq> CHR ''-'') \<longrightarrow>
       c # t = u @ ''%}'' @ v \<longrightarrow>
        (rest st = ''{%'' @ d @ ws @ c # t \<longrightarrow>
          (\<exists>mt2 ms2. finditer_from default_rules b st = mt2 # ms2 \<and> m_start mt2 = pos st \<and>
             m_lastgroup mt2 = Some ''TAG'' \<and> group_text mt2 ''name'' = [] \<and>
             fst (p_tokenize_template_body mt2 ts2) =
               Token (line_count ts2) TOKEN_TAG [] #
               (if group_text mt2 ''expr'' = [] then []
                else [Token (line_count ts2) TOKEN_EXPRESSION (group_text mt2 ''expr'')])))
      \<and> (CHR ''{'' \<notin> set pre \<longrightarrow>
          (\<exists>mt3 ms3.
             finditer_from default_rules False
               (consume pre (start_state (pre @ ''{%'' @ d @ ws @ c # t))) = mt3 # ms3 \<and>
             default_lexer (pre @ ''{%'' @ d @ ws @ c # t) =
               (case run_loop p_tokenize_template_body
                       \<lparr>line_count = 1 + count_newlines pre + count_newlines (m_text mt3),
                        lstrip = (group_text mt3 ''rst'' \<noteq> [])\<rparr> ms3 of
                  (toks, err) \<Rightarrow>
                    ((if (if d = [] then pre else str_rstrip pre) = [] then []
                      else [Token 1 TOKEN_LITERAL (if d = [] then pre else str_rstrip pre)]) @
                     Token (1 + count_newlines pre) TOKEN_TAG [] #
                     (if group_text mt3 ''expr'' = [] then []
                      else [Token (1 + count_newlines pre) TOKEN_EXPRESSION
                              (group_text mt3 ''expr'')]) @
                     toks,
                     err))))"
  proof (rule impI, rule impI, rule impI, rule impI, rule impI, rule impI, rule conjI)
    assume reg: "d = [] \<or> d = ''-''" "\<forall>x \<in> set ws. is_space x" "\<not> is_space c" "\<not> is_word c"
      "d = [] \<longrightarrow> ws = [] \<longrightarrow> c \<noteq> CHR ''-''" "c # t = u @ ''%}'' @ v"
    show "rest st = ''{%'' @ d @ ws @ c # t \<longrightarrow>
          (\<exists>mt2 ms2. finditer_from default_rules b st = mt2 # ms2 \<and> m_start mt2 = pos st \<and>
             m_lastgroup mt2 = Some ''TAG'' \<and> group_text mt2 ''name'' = [] \<and>
             fst (p_tokenize_template_body mt2 ts2) =
               Token (line_count ts2) TOKEN_TAG [] #
               (if group_text mt2 ''expr'' = [] then []
                else [Token (line_count ts2) TOKEN_EXPRESSION (group_text mt2 ''expr'')]))"
      by (rule impI) (rule region_tokens [OF reg])
    show "CHR ''{'' \<notin> set pre \<longrightarrow>
          (\<exists>mt3 ms3.
             finditer_from default_rules False
               (consume pre (start_state (pre @ ''{%'' @ d @ ws @ c # t))) = mt3 # ms3 \<and>
             default_lexer (pre @ ''{%'' @ d @ ws @ c # t) =
               (case run_loop p_tokenize_template_body
                       \<lparr>line_count = 1 + count_newlines pre + count_newlines (m_text mt3),
                        lstrip = (group_text mt3 ''rst'' \<noteq> [])\<rparr> ms3 of
                  (toks, err) \<Rightarrow>
                    ((if (if d = [] then pre else str_rstrip pre) = [] then []
                      else [Token 1 TOKEN_LITERAL (if d = [] then pre else str_rstrip pre)]) @
                     Token (1 + count_newlines pre) TOKEN_TAG [] #
                     (if group_text mt3 ''expr'' = [] then []
                      else [Token (1 + count_newlines pre) TOKEN_EXPRESSION
                              (group_text mt3 ''expr'')]) @
                     toks,
                     err)))"
      by (rule impI) (rule region_after_plain_text [OF reg])
  qed
next
  show "CHR ''{'' \<notin> set lead \<longrightarrow> (\<forall>x \<in> set blanks. is_space x) \<longrightarrow>
        default_lexer (lead @ ''{%'' @ blanks @ ''%}'' @ post) =
          (case run_loop p_tokenize_template_body
                  \<lparr>line_count = 1 + count_newlines lead + count_newlines blanks, lstrip = False\<rparr>
                  (finditer_from default_rules False
                     (consume (lead @ ''{%'' @ blanks @ ''%}'')
                        (start_state (lead @ ''{%'' @ blanks @ ''%}'' @ post)))) of
             (toks, err) \<Rightarrow>
               ((if lead = [] then [] else [Token 1 TOKEN_LITERAL lead]) @
                Token (1 + count_newlines lead) TOKEN_TAG [] # toks,
                err))"
    by (rule impI, rule impI) (rule blank_region_after_plain_text)
next
  show "TOKEN_TAG \<noteq> TOKEN_LITERAL"
    by (simp add: token_defs)
next
  show "TOKEN_EXPRESSION \<noteq> TOKEN_LITERAL"
    by (simp add: token_defs)
qed

theorem empty_tag_name_witness:
  "finditer default_rules ''{% !x %}'' =
     [] @ \<lparr>m_start = 0, m_end = 8, m_text = ''{% !x %}'',
            m_groups = [(''TAG'', ''{% !x %}''), (''rst'', []), (''expr'', ''!x''), (''name'', [])],
            m_lastgroup = Some ''TAG''\<rparr> # []
   \<and> p_tokenize_template ''{% !x %}'' default_rules =
       ([Token 1 TOKEN_TAG [], Token 1 TOKEN_EXPRESSION ''!x''], None)
   \<and> list_all is_space '' '' \<and> \<not> is_space CHR ''!'' \<and> \<not> is_word CHR ''!''
   \<and> ''!x %}'' = ''!x '' @ ''%}'' @ []
   \<and> m_lastgroup (hd (finditer default_rules ''{% !x %}'')) = Some ''TAG''
   \<and> group_text (hd (finditer default_rules ''{% !x %}'')) ''name'' = []
   \<and> CHR ''{'' \<notin> set ''a''
   \<and> take 2 (fst (default_lexer ''a{% !x %}'')) =
       [Token 1 TOKEN_LITERAL ''a'', Token 1 TOKEN_TAG []]
   \<and> list_all is_space ''  ''
   \<and> default_lexer ''x{%  %}'' = ([Token 1 TOKEN_LITERAL ''x'', Token 1 TOKEN_TAG []], None)"
proof -
  let ?mt = "\<lparr>m_start = 0, m_end = 8, m_text = ''{% !x %}'',
       m_groups = [(''TAG'', ''{% !x %}''), (''rst'', []), (''expr'', ''!x''), (''name'', [])],
       m_lastgroup = Some ''TAG''\<rparr>"
  let ?st0 = "\<lparr>line_count = 1, lstrip = False\<rparr>"
  have f: "finditer default_rules ''{% !x %}'' = [] @ ?mt # []"
    by code_simp
  have l: "loop_state p_tokenize_template_body ?st0 [] = Some ?st0"
    by simp
  have k: "m_lastgroup ?mt = Some ''TAG''"
    by simp
  have n: "group_text ?mt ''name'' = []" and x: "group_text ?mt ''expr'' = ''!x''"
    by (simp_all add: group_text_def group_def)
  note a = empty_tag_name [where rules = default_rules and source = "''{% !x %}''" and ms = "[]"
      and mt = ?mt and ms' = "[]" and ts = ?st0,
      THEN conjunct1, THEN mp, THEN mp, THEN mp, THEN mp, OF f l k n]
  have w1: "p_tokenize_template ''{% !x %}'' default_rules =
       ([Token 1 TOKEN_TAG [], Token 1 TOKEN_EXPRESSION ''!x''], None)"
    unfolding a x by simp
  have sp1: "\<forall>x \<in> set '' ''. is_space x" and sp2: "\<forall>x \<in> set ''  ''. is_space x"
    by (simp_all add: is_space_def chr_in_def)
  have bang: "\<not> is_space CHR ''!''" "\<not> is_word CHR ''!''"
    by (simp_all add: is_space_def is_word_def is_ascii_word_def chr_in_def)
  have cl: "CHR ''!'' # ''x %}'' = ''!x '' @ ''%}'' @ []"
    by simp
  have d: "[] = [] \<or> [] = ''-''" "[] = [] \<longrightarrow> '' '' = [] \<longrightarrow> CHR ''!'' \<noteq> CHR ''-''"
    by simp_all
  have rs: "rest (start_state ''{% !x %}'') = ''{%'' @ [] @ '' '' @ CHR ''!'' # ''x %}''"
    by (simp add: start_state_def)
  note bc = empty_tag_name [where d = "[]" and ws = "'' ''" and c = "CHR ''!''" and t = "''x %}''"
      and u = "''!x ''" and v = "[]" and st = "start_state ''{% !x %}''" and b = False
      and pre = "''a''", THEN conjunct2, THEN conjunct1,
      THEN mp, THEN mp, THEN mp, THEN mp, THEN mp, THEN mp, OF d(1) sp1 bang d(2) cl]
  from bc [THEN conjunct1, THEN mp, OF rs]
  obtain mt2 ms2 where
    m2: "finditer_from default_rules False (start_state ''{% !x %}'') = mt2 # ms2"
      "m_lastgroup mt2 = Some ''TAG''" "group_text mt2 ''name'' = []"
    by blast
  have w2: "m_lastgroup (hd (finditer default_rules ''{% !x %}'')) = Some ''TAG''"
    "group_text (hd (finditer default_rules ''{% !x %}'')) ''name'' = []"
    unfolding finditer_def m2(1) list.sel by (rule m2(2), rule m2(3))
  have nb: "CHR ''{'' \<notin> set ''a''" "CHR ''{'' \<notin> set ''x''"
    by simp_all
  from bc [THEN conjunct2, THEN mp, OF nb(1)]
  obtain mt3 ms3 where
    m3: "default_lexer (''a'' @ ''{%'' @ [] @ '' '' @ CHR ''!'' # ''x %}'') =
               (case run_loop p_tokenize_template_body
                       \<lparr>line_count = 1 + count_newlines ''a'' + count_newlines (m_text mt3),
                        lstrip = (group_text mt3 ''rst'' \<noteq> [])\<rparr> ms3 of
                  (toks, err) \<Rightarrow>
                    ((if (if [] = ([]::string) then ''a'' else str_rstrip ''a'') = [] then []
                      else [Token 1 TOKEN_LITERAL
                              (if [] = ([]::string) then ''a'' else str_rstrip ''a'')]) @
                     Token (1 + count_newlines ''a'') TOKEN_TAG [] #
                     (if group_text mt3 ''expr'' = [] then []
                      else [Token (1 + count_newlines ''a'') TOKEN_EXPRESSION
                              (group_text mt3 ''expr'')]) @
                     toks,
                     err))"
    by (elim exE conjE)
  have src3: "''a{% !x %}'' = ''a'' @ ''{%'' @ [] @ '' '' @ CHR ''!'' # ''x %}''"
    by simp
  have c0: "count_newlines ''a'' = 0" "count_newlines ''x'' = 0" "count_newlines ''  '' = 0"
    by (simp_all add: count_newlines_def nl_def)
  have w3: "take 2 (fst (default_lexer ''a{% !x %}'')) =
      [Token 1 TOKEN_LITERAL ''a'', Token 1 TOKEN_TAG []]"
    unfolding src3 m3 c0 by (simp add: case_prod_unfold)
  have tail: "finditer_from default_rules False
      (consume (''x'' @ ''{%'' @ ''  '' @ ''%}'')
         (start_state (''x'' @ ''{%'' @ ''  '' @ ''%}'' @ []))) = []"
    by code_simp
  note dd = empty_tag_name [where lead = "''x''" and blanks = "''  ''" and post = "[]",
      THEN conjunct2, THEN conjunct2, THEN conjunct1, THEN mp, THEN mp, OF nb(2) sp2]
  have src4: "''x{%  %}'' = ''x'' @ ''{%'' @ ''  '' @ ''%}'' @ []"
    by simp
  have w4: "default_lexer ''x{%  %}'' = ([Token 1 TOKEN_LITERAL ''x'', Token 1 TOKEN_TAG []], None)"
    unfolding src4 dd tail c0 by simp
  have la: "list_all is_space '' ''" "list_all is_space ''  ''"
    using sp1 sp2 by (simp_all add: list_all_iff)
  from f w1 la(1) bang cl w2 nb(1) w3 la(2) w4 show ?thesis
    by (intro conjI)
qed

text \<open>
  Where the scan does not reach the region, the tokens are others: inside a raw block the
  region is part of the literal token of the block, and behind an unterminated \<^verbatim>\<open>{{\<close>
  the lexer raises before it yields a token.
\<close>

lemma region_inside_raw_block:
  "default_lexer ''{% raw %}{%  %}{% endraw %}'' = ([Token 1 TOKEN_LITERAL ''{%  %}''], None)"
  by code_simp

lemma region_behind_open_statement:
  "default_lexer ''{{ {%  %}'' = ([], Some (LiquidSyntaxError Expected_close_found_eof 1))"
  by code_simp

text \<open>
  C2 as stated fails: in \<^verbatim>\<open>{% !x %}\<close> the name of the tag region is empty, and the
  tag token is followed by an expression token for \<^verbatim>\<open>!x\<close>.
\<close>

theorem empty_tag_name_with_remainder:
  "default_lexer ''{% !x %}'' = ([Token 1 TOKEN_TAG [], Token 1 TOKEN_EXPRESSION ''!x''], None)"
  by code_simp

end
